theory Spec2Isabelle
  imports Main
begin

section \<open>Python values and the collaborators of \<open>export_db.py\<close>\<close>

text \<open>
  The script reads every key of the Replit key-value store into a dictionary and dumps
  the dictionary as JSON:
  \<^verbatim>\<open>
  data = {}
  for key in db.keys():
      data[key] = db[key]

  with open('database_backup.json', 'w') as f:
      json.dump(data, f, indent=4)

  print("Database has been backed up to database_backup.json")
  \<close>
  A Python \<open>str\<close> is a sequence of Unicode code points; the text written to the file
  is a sequence of characters.
\<close>

type_synonym pystr = "nat list"

text \<open>
  A float is \<open>nan\<close>, \<open>inf\<close>, \<open>-inf\<close> or a finite number. A finite float is
  identified by the text \<open>float.__repr__\<close> prints for it (distinct finite floats have
  distinct texts); no arithmetic on floats is modelled.
\<close>

datatype pyfloat = Finite string | NaN | PosInf | NegInf

text \<open>Dictionary keys: the kinds the encoder tells apart, and any other hashable object
  (by the name of its class).\<close>

datatype pykey = KStr pystr | KInt int | KBool bool | KNone | KFloat pyfloat | KOther string

text \<open>Values: what the encoder knows, and any other object (by the name of its class).
  A dictionary keeps its items in insertion order.\<close>

datatype pyval =
    PNone
  | PBool bool
  | PInt int
  | PFloat pyfloat
  | PStr pystr
  | PList "pyval list"
  | PTuple "pyval list"
  | PDict "(pykey \<times> pyval) list"
  | PObject string

text \<open>
  The exceptions that can leave the script, under the names of the specification:
  \<open>StoreUnavailable\<close> is whatever \<open>db.keys()\<close> or \<open>db[key]\<close> raises (with the store's
  message), \<open>SerializationError\<close> is the \<open>TypeError\<close> of the JSON encoder (with its
  message), \<open>FilesystemError\<close> is the \<open>OSError\<close> of \<open>open\<close> or \<open>write\<close>.
\<close>

datatype exn = StoreUnavailable string | SerializationError string | FilesystemError

text \<open>
  The environment of one run: what \<open>db.keys()\<close> yields (in iteration order) or raises,
  what \<open>db[key]\<close> returns or raises, whether \<open>open(..., 'w')\<close> succeeds, and how many
  characters the disk takes of what is written to the file (\<open>None\<close>: all of them).
\<close>

record env =
  db_keys :: "string + pystr list"
  db_get :: "pystr \<Rightarrow> string + pyval"
  can_open :: bool
  write_budget :: "nat option"

text \<open>The world the script acts on: the files by path, and the lines printed.\<close>

record world =
  files :: "string \<rightharpoonup> string"
  stdout :: "string list"

section \<open>The dictionary \<open>data\<close>\<close>

text \<open>\<open>d[k] = v\<close>: a key already present keeps its position and takes the new value; a
  new key goes last.\<close>

fun dict_set :: "'k \<Rightarrow> 'v \<Rightarrow> ('k \<times> 'v) list \<Rightarrow> ('k \<times> 'v) list" where
  "dict_set k v [] = [(k, v)]"
| "dict_set k v ((k', v') # d) = (if k = k' then (k, v) # d else (k', v') # dict_set k v d)"

text \<open>The loop \<open>for key in db.keys(): data[key] = db[key]\<close>, from the keys still to
  visit and the dictionary so far. A read that raises ends the loop.\<close>

fun accumulate :: "(pystr \<Rightarrow> string + pyval) \<Rightarrow> pystr list \<Rightarrow> (pykey \<times> pyval) list
    \<Rightarrow> exn + (pykey \<times> pyval) list" where
  "accumulate get [] data = Inr data"
| "accumulate get (key # keys) data =
     (case get key of
        Inl msg \<Rightarrow> Inl (StoreUnavailable msg)
      | Inr v \<Rightarrow> accumulate get keys (dict_set (KStr key) v data))"

definition build_data :: "env \<Rightarrow> exn + (pykey \<times> pyval) list" where
  "build_data e =
     (case db_keys e of
        Inl msg \<Rightarrow> Inl (StoreUnavailable msg)
      | Inr keys \<Rightarrow> accumulate (db_get e) keys [])"

section \<open>The JSON encoder of \<open>json.dump(data, f, indent=4)\<close>\<close>

subsection \<open>Scalars\<close>

definition digit_char :: "nat \<Rightarrow> char" where
  "digit_char d = char_of (48 + d)"

fun nat_digits :: "nat \<Rightarrow> string" where
  "nat_digits n = (if n < 10 then [digit_char n] else nat_digits (n div 10) @ [digit_char (n mod 10)])"

declare nat_digits.simps [simp del]

text \<open>\<open>int.__repr__\<close>\<close>

definition intstr :: "int \<Rightarrow> string" where
  "intstr i = (if i < 0 then CHR ''-'' # nat_digits (nat (- i)) else nat_digits (nat i))"

text \<open>\<open>floatstr\<close> with \<open>allow_nan=True\<close> (the default)\<close>

fun floatstr :: "pyfloat \<Rightarrow> string" where
  "floatstr NaN = ''NaN''"
| "floatstr PosInf = ''Infinity''"
| "floatstr NegInf = ''-Infinity''"
| "floatstr (Finite r) = r"

definition hex_char :: "nat \<Rightarrow> char" where
  "hex_char d = (if d < 10 then char_of (48 + d) else char_of (87 + d))"

text \<open>\<open>'\\u{0:04x}'.format(n)\<close> for \<open>n < 0x10000\<close>\<close>

definition u_escape :: "nat \<Rightarrow> string" where
  "u_escape n = [CHR 0x5C, CHR ''u'', hex_char (n div 4096 mod 16), hex_char (n div 256 mod 16),
     hex_char (n div 16 mod 16), hex_char (n mod 16)]"

text \<open>
  \<open>py_encode_basestring_ascii\<close>: the replacement of one code point. The quote, the
  backslash and the control characters with a short form take it; the other printable
  ASCII characters stand for themselves; everything else is a \<open>\uXXXX\<close> escape, a
  surrogate pair above the basic plane.
\<close>

definition escape_char :: "nat \<Rightarrow> string" where
  "escape_char c =
     (if c = 0x5C then [CHR 0x5C, CHR 0x5C]
      else if c = 0x22 then [CHR 0x5C, CHR 0x22]
      else if c = 0x08 then [CHR 0x5C, CHR ''b'']
      else if c = 0x0C then [CHR 0x5C, CHR ''f'']
      else if c = 0x0A then [CHR 0x5C, CHR ''n'']
      else if c = 0x0D then [CHR 0x5C, CHR ''r'']
      else if c = 0x09 then [CHR 0x5C, CHR ''t'']
      else if 0x20 \<le> c \<and> c \<le> 0x7E then [char_of c]
      else if c < 0x10000 then u_escape c
      else u_escape (0xD800 + ((c - 0x10000) div 1024) mod 1024)
         @ u_escape (0xDC00 + (c - 0x10000) mod 1024))"

definition py_encode_basestring_ascii :: "pystr \<Rightarrow> string" where
  "py_encode_basestring_ascii s = CHR 0x22 # concat (map escape_char s) @ [CHR 0x22]"

text \<open>The text of a string, of \<open>None\<close>, of a boolean and of a number; nothing for the
  rest (containers and unknown objects).\<close>

fun scalar_text :: "pyval \<Rightarrow> string option" where
  "scalar_text (PStr s) = Some (py_encode_basestring_ascii s)"
| "scalar_text PNone = Some ''null''"
| "scalar_text (PBool b) = Some (if b then ''true'' else ''false'')"
| "scalar_text (PInt i) = Some (intstr i)"
| "scalar_text (PFloat f) = Some (floatstr f)"
| "scalar_text (PList lst) = None"
| "scalar_text (PTuple lst) = None"
| "scalar_text (PDict dct) = None"
| "scalar_text (PObject cls) = None"

text \<open>The key of a dictionary item as the encoder writes it: a \<open>str\<close> as it is, a float,
  a boolean, \<open>None\<close> and an int by their JSON text; any other key is a \<open>TypeError\<close>.\<close>

definition str_of :: "string \<Rightarrow> pystr" where
  "str_of s = map of_char s"

fun key_str :: "pykey \<Rightarrow> exn + pystr" where
  "key_str (KStr s) = Inr s"
| "key_str (KFloat f) = Inr (str_of (floatstr f))"
| "key_str (KBool b) = Inr (str_of (if b then ''true'' else ''false''))"
| "key_str KNone = Inr (str_of ''null'')"
| "key_str (KInt i) = Inr (str_of (intstr i))"
| "key_str (KOther cls) =
     Inl (SerializationError (''keys must be str, int, float, bool or None, not '' @ cls))"

subsection \<open>The generator of chunks\<close>

text \<open>
  \<open>iterencode\<close> is a generator: it yields chunks of text and may raise after some of
  them. Its run is the chunks yielded, in order, and the exception that ended it, if any.
\<close>

type_synonym chunks = "string list \<times> exn option"

definition yield :: "string \<Rightarrow> chunks" where
  "yield s = ([s], None)"

definition raise :: "exn \<Rightarrow> chunks" where
  "raise e = ([], Some e)"

definition done_c :: chunks where
  "done_c = ([], None)"

text \<open>One generator after another: the second runs only if the first did not raise.\<close>

fun seqc :: "chunks \<Rightarrow> chunks \<Rightarrow> chunks" where
  "seqc (a, None) (b, r) = (a @ b, r)"
| "seqc (a, Some e) g = (a, Some e)"

text \<open>\<open>'\n' + _indent * _current_indent_level\<close> with \<open>_indent = ' ' * 4\<close>\<close>

definition newline_indent :: "nat \<Rightarrow> string" where
  "newline_indent lvl = CHR 0x0A # replicate (4 * lvl) CHR '' ''"

text \<open>
  \<open>_iterencode\<close>, the loop of \<open>_iterencode_list\<close> and the loop of \<open>_iterencode_dict\<close>
  of \<open>json.encoder._make_iterencode\<close>, for \<open>indent=4\<close> (item separator \<open>','\<close>, key
  separator \<open>': '\<close>, keys not sorted, no key skipped). The list loop carries \<open>buf\<close>, the
  text that goes before the next item; the dictionary loop carries \<open>first\<close>.
\<close>

fun iterencode :: "pyval \<Rightarrow> nat \<Rightarrow> chunks"
  and iterencode_list :: "string \<Rightarrow> pyval list \<Rightarrow> nat \<Rightarrow> chunks"
  and iterencode_dict :: "bool \<Rightarrow> (pykey \<times> pyval) list \<Rightarrow> nat \<Rightarrow> chunks"
where
  "iterencode (PStr s) lvl = yield (py_encode_basestring_ascii s)"
| "iterencode PNone lvl = yield ''null''"
| "iterencode (PBool b) lvl = yield (if b then ''true'' else ''false'')"
| "iterencode (PInt i) lvl = yield (intstr i)"
| "iterencode (PFloat f) lvl = yield (floatstr f)"
| "iterencode (PList lst) lvl =
     (if lst = [] then yield ''[]''
      else seqc (iterencode_list (CHR ''['' # newline_indent (Suc lvl)) lst (Suc lvl))
          (seqc (yield (newline_indent lvl)) (yield '']'')))"
| "iterencode (PTuple lst) lvl =
     (if lst = [] then yield ''[]''
      else seqc (iterencode_list (CHR ''['' # newline_indent (Suc lvl)) lst (Suc lvl))
          (seqc (yield (newline_indent lvl)) (yield '']'')))"
| "iterencode (PDict dct) lvl =
     (if dct = [] then yield ''{}''
      else seqc (yield ''{'')
          (seqc (yield (newline_indent (Suc lvl)))
          (seqc (iterencode_dict True dct (Suc lvl))
          (seqc (yield (newline_indent lvl)) (yield ''}'')))))"
| "iterencode (PObject cls) lvl =
     raise (SerializationError (''Object of type '' @ cls @ '' is not JSON serializable''))"
| "iterencode_list buf [] lvl = done_c"
| "iterencode_list buf (v # vs) lvl =
     seqc (case scalar_text v of
             Some t \<Rightarrow> yield (buf @ t)
           | None \<Rightarrow> seqc (yield buf) (iterencode v lvl))
          (iterencode_list (CHR '','' # newline_indent lvl) vs lvl)"
| "iterencode_dict first [] lvl = done_c"
| "iterencode_dict first ((key, v) # items) lvl =
     (case key_str key of
        Inl e \<Rightarrow> raise e
      | Inr k \<Rightarrow>
          seqc (if first then done_c else yield (CHR '','' # newline_indent lvl))
          (seqc (yield (py_encode_basestring_ascii k))
          (seqc (yield '': '')
          (seqc (iterencode v lvl)
                (iterencode_dict False items lvl)))))"


section \<open>Writing the file\<close>

text \<open>
  \<open>json.dump\<close> hands the chunks to the file as the generator yields them:
  \<^verbatim>\<open>for chunk in iterable: fp.write(chunk)\<close>.
  The file \<open>f\<close> is buffered: what is written reaches the disk when the buffer is flushed,
  inside some \<open>write\<close> or when the \<open>with\<close> block closes the file. When the disk takes
  fewer characters than were written, that flush raises \<open>OSError\<close> and the file is left
  with the characters the disk took, a prefix that may end inside a chunk; this is so as
  well when the generator has raised first, since the \<open>OSError\<close> of the close then
  replaces its exception. The result is the text the file holds once the block has
  closed it, and the exception that leaves the block, if any.
\<close>

definition json_dump :: "pyval \<Rightarrow> nat option \<Rightarrow> string \<times> exn option" where
  "json_dump obj budget =
     (case iterencode obj 0 of
        (cs, r) \<Rightarrow>
          (case budget of
             None \<Rightarrow> (concat cs, r)
           | Some n \<Rightarrow>
               if n < length (concat cs) then (take n (concat cs), Some FilesystemError)
               else (concat cs, r)))"

definition backup_path :: string where
  "backup_path = ''database_backup.json''"

definition notice :: string where
  "notice = ''Database has been backed up to database_backup.json''"

text \<open>
  The whole script. The result is the exception that ended the run (\<open>None\<close>: the run
  reached its end) and the world it left. \<open>open(..., 'w')\<close> creates or truncates the
  file; the \<open>with\<close> block closes it on every way out, so what was written stays.
\<close>

definition export_db :: "env \<Rightarrow> world \<Rightarrow> exn option \<times> world" where
  "export_db e w =
     (case build_data e of
        Inl x \<Rightarrow> (Some x, w)
      | Inr data \<Rightarrow>
          if \<not> can_open e then (Some FilesystemError, w)
          else
            (case json_dump (PDict data) (write_budget e) of
               (written, r) \<Rightarrow>
                 (case r of
                    Some x \<Rightarrow> (Some x, w\<lparr>files := (files w)(backup_path \<mapsto> written)\<rparr>)
                  | None \<Rightarrow>
                      (None, w\<lparr>files := (files w)(backup_path \<mapsto> written),
                                stdout := stdout w @ [notice]\<rparr>))))"


section \<open>What the encoder accepts\<close>

text \<open>The encoder has a form for a key that is a \<open>str\<close>, an int, a float, a boolean or
  \<open>None\<close>, and for a value built from \<open>None\<close>, booleans, numbers, strings, lists,
  tuples and dictionaries with such keys.\<close>

fun key_encodable :: "pykey \<Rightarrow> bool" where
  "key_encodable (KOther cls) = False"
| "key_encodable k = True"

fun encodable :: "pyval \<Rightarrow> bool" where
  "encodable (PList lst) = (\<forall>v \<in> set lst. encodable v)"
| "encodable (PTuple lst) = (\<forall>v \<in> set lst. encodable v)"
| "encodable (PDict dct) = (\<forall>(k, v) \<in> set dct. key_encodable k \<and> encodable v)"
| "encodable (PObject cls) = False"
| "encodable v = True"

section \<open>The document as a whole\<close>

text \<open>
  The layout the specification describes, as one text: an empty container is \<open>[]\<close> or
  \<open>{}\<close>; a container with items opens its bracket, puts every item on a line of its own,
  indented by four spaces for each level of nesting, separates the items by a comma at
  the end of the line, and closes the bracket on a line of its own at the level of the
  container; a key and its value are separated by a colon and a space. It is what the
  chunks of \<open>iterencode\<close> add up to when the encoder accepts the value (lemma
  \<open>iterencode_ok\<close>).
\<close>

definition key_text :: "pykey \<Rightarrow> pystr" where
  "key_text k = (case key_str k of Inr s \<Rightarrow> s | Inl e \<Rightarrow> [])"

fun json_text :: "pyval \<Rightarrow> nat \<Rightarrow> string"
  and items_text :: "pyval list \<Rightarrow> nat \<Rightarrow> string"
  and members_text :: "(pykey \<times> pyval) list \<Rightarrow> nat \<Rightarrow> string"
where
  "json_text (PStr s) lvl = py_encode_basestring_ascii s"
| "json_text PNone lvl = ''null''"
| "json_text (PBool b) lvl = (if b then ''true'' else ''false'')"
| "json_text (PInt i) lvl = intstr i"
| "json_text (PFloat f) lvl = floatstr f"
| "json_text (PList lst) lvl =
     (if lst = [] then ''[]''
      else ''['' @ newline_indent (Suc lvl) @ items_text lst (Suc lvl) @ newline_indent lvl @ '']'')"
| "json_text (PTuple lst) lvl =
     (if lst = [] then ''[]''
      else ''['' @ newline_indent (Suc lvl) @ items_text lst (Suc lvl) @ newline_indent lvl @ '']'')"
| "json_text (PDict dct) lvl =
     (if dct = [] then ''{}''
      else ''{'' @ newline_indent (Suc lvl) @ members_text dct (Suc lvl) @ newline_indent lvl @ ''}'')"
| "json_text (PObject cls) lvl = []"
| "items_text [] lvl = []"
| "items_text (v # vs) lvl =
     json_text v lvl @ (if vs = [] then [] else '','' @ newline_indent lvl @ items_text vs lvl)"
| "members_text [] lvl = []"
| "members_text ((k, v) # kvs) lvl =
     py_encode_basestring_ascii (key_text k) @ '': '' @ json_text v lvl
       @ (if kvs = [] then [] else '','' @ newline_indent lvl @ members_text kvs lvl)"

text \<open>Every character is ASCII: such a text is the same bytes in UTF-8 and in every
  encoding that extends ASCII, whatever encoding \<open>open\<close> picks.\<close>

definition ascii_text :: "string \<Rightarrow> bool" where
  "ascii_text s = (\<forall>c \<in> set s. (of_char c :: nat) < 128)"

section \<open>Reading the file back\<close>

text \<open>
  What the file holds "parsed as JSON" is made precise by a reader that follows Python's
  \<open>json.loads\<close> (\<open>json.decoder\<close> and \<open>json.scanner\<close>): white space is blank, tab,
  line feed and carriage return; a string ends at the first unescaped quote, may not
  hold a control character, and a \<open>\uXXXX\<close> escape of a high surrogate followed by one
  of a low surrogate is one code point; a number is an optional minus sign, an integer
  without leading zeros, an optional fraction and an optional exponent, an int without
  fraction and exponent and a float with one; an object becomes a dictionary, a later item with the
  same key replacing the value of the earlier one. With \<open>allow_nan\<close> the reader accepts
  \<open>NaN\<close>, \<open>Infinity\<close> and \<open>-Infinity\<close> as \<open>json.loads\<close> does; without it the reader
  accepts the JSON of RFC 8259 only.
\<close>

definition is_ws :: "char \<Rightarrow> bool" where
  "is_ws c = (c = CHR '' '' \<or> c = CHR 0x09 \<or> c = CHR 0x0A \<or> c = CHR 0x0D)"

definition skip_ws :: "string \<Rightarrow> string" where
  "skip_ws s = dropWhile is_ws s"

definition is_digit :: "char \<Rightarrow> bool" where
  "is_digit c = (48 \<le> (of_char c :: nat) \<and> (of_char c :: nat) \<le> 57)"

definition hex_val :: "char \<Rightarrow> nat option" where
  "hex_val c =
     (let n = of_char c in
      if 48 \<le> n \<and> n \<le> 57 then Some (n - 48)
      else if 97 \<le> n \<and> n \<le> 102 then Some (n - 87)
      else if 65 \<le> n \<and> n \<le> 70 then Some (n - 55)
      else None)"

text \<open>Four hexadecimal digits, and the text after them.\<close>

fun decode_uXXXX :: "string \<Rightarrow> (nat \<times> string) option" where
  "decode_uXXXX (a # b # c # d # rest) =
     (case (hex_val a, hex_val b, hex_val c, hex_val d) of
        (Some x, Some y, Some z, Some w) \<Rightarrow> Some (((x * 16 + y) * 16 + z) * 16 + w, rest)
      | _ \<Rightarrow> None)"
| "decode_uXXXX s = None"

definition unescape :: "char \<Rightarrow> nat option" where
  "unescape c =
     (if c = CHR 0x22 then Some 0x22
      else if c = CHR 0x5C then Some 0x5C
      else if c = CHR ''/'' then Some 0x2F
      else if c = CHR ''b'' then Some 0x08
      else if c = CHR ''f'' then Some 0x0C
      else if c = CHR ''n'' then Some 0x0A
      else if c = CHR ''r'' then Some 0x0D
      else if c = CHR ''t'' then Some 0x09
      else None)"

text \<open>\<open>py_scanstring\<close>, from the character after the opening quote: the code points read so
  far are in \<open>acc\<close>; the result is the string and the text after the closing quote.\<close>

function scanstring :: "string \<Rightarrow> pystr \<Rightarrow> (pystr \<times> string) option" where
  "scanstring [] acc = None"
| "scanstring (c # s) acc =
     (if c = CHR 0x22 then Some (acc, s)
      else if c = CHR 0x5C then
        (case s of
           [] \<Rightarrow> None
         | esc # s1 \<Rightarrow>
             if esc = CHR ''u'' then
               (case decode_uXXXX s1 of
                  None \<Rightarrow> None
                | Some (uni, s2) \<Rightarrow>
                    if 0xD800 \<le> uni \<and> uni \<le> 0xDBFF \<and> take 2 s2 = [CHR 0x5C, CHR ''u''] then
                      (case decode_uXXXX (drop 2 s2) of
                         None \<Rightarrow> None
                       | Some (uni2, s3) \<Rightarrow>
                           if 0xDC00 \<le> uni2 \<and> uni2 \<le> 0xDFFF
                           then scanstring s3 (acc @ [0x10000 + (uni - 0xD800) * 1024 + (uni2 - 0xDC00)])
                           else scanstring s2 (acc @ [uni]))
                    else scanstring s2 (acc @ [uni]))
             else
               (case unescape esc of
                  None \<Rightarrow> None
                | Some ch \<Rightarrow> scanstring s1 (acc @ [ch])))
      else if (of_char c :: nat) < 0x20 then None
      else scanstring s (acc @ [of_char c]))"
  by pat_completeness auto
termination
proof -
  have len: "length r < length s" if "decode_uXXXX s = Some (u, r)" for s u r
    using that by (induction s rule: decode_uXXXX.induct) (auto split: option.splits)
  show ?thesis
  proof (relation "measure (\<lambda>(s, acc). length s)", goal_cases)
    case 1
    show ?case by simp
  next
    case (2 c s acc esc s1 x uni s2 y uni2 s3)
    then show ?case
      using len [of s1 uni s2] len [of "drop 2 s2" uni2 s3] by simp
  next
    case (3 c s acc esc s1 x uni s2 y uni2 s3)
    then show ?case using len [of s1 uni s2] by simp
  next
    case (4 c s acc esc s1 x uni s2)
    then show ?case using len [of s1 uni s2] by simp
  next
    case 5
    then show ?case by simp
  next
    case 6
    then show ?case by simp
  qed
qed

definition nat_of_digits :: "string \<Rightarrow> nat" where
  "nat_of_digits ds = foldl (\<lambda>a c. 10 * a + (of_char c - 48)) 0 ds"

definition int_of_text :: "string \<Rightarrow> int" where
  "int_of_text t =
     (case t of
        [] \<Rightarrow> 0
      | c # r \<Rightarrow> if c = CHR ''-'' then - int (nat_of_digits r) else int (nat_of_digits t))"

text \<open>The three groups of the number pattern: what each matches at the start of the text,
  and the text after it.\<close>

definition match_sign :: "string \<Rightarrow> string \<times> string" where
  "match_sign s = (case s of [] \<Rightarrow> ([], s) | c # r \<Rightarrow> if c = CHR ''-'' then ([c], r) else ([], s))"

definition match_int :: "string \<Rightarrow> (string \<times> string) option" where
  "match_int s =
     (case match_sign s of
        (sg, s1) \<Rightarrow>
          (case s1 of
             [] \<Rightarrow> None
           | c # r \<Rightarrow>
               if c = CHR ''0'' then Some (sg @ [c], r)
               else if is_digit c then Some (sg @ c # takeWhile is_digit r, dropWhile is_digit r)
               else None))"

definition match_frac :: "string \<Rightarrow> string \<times> string" where
  "match_frac s =
     (case s of
        [] \<Rightarrow> ([], s)
      | c # r \<Rightarrow>
          if c = CHR ''.'' \<and> takeWhile is_digit r \<noteq> []
          then (c # takeWhile is_digit r, dropWhile is_digit r)
          else ([], s))"

definition match_exp :: "string \<Rightarrow> string \<times> string" where
  "match_exp s =
     (case s of
        [] \<Rightarrow> ([], s)
      | c # r \<Rightarrow>
          if c = CHR ''e'' \<or> c = CHR ''E'' then
            (case (case r of
                     [] \<Rightarrow> ([], r)
                   | d # r' \<Rightarrow> if d = CHR ''-'' \<or> d = CHR ''+'' then ([d], r') else ([], r)) of
               (sg, r1) \<Rightarrow>
                 if takeWhile is_digit r1 \<noteq> []
                 then (c # sg @ takeWhile is_digit r1, dropWhile is_digit r1)
                 else ([], s))
          else ([], s))"

text \<open>A numeral with a fraction or an exponent is the float it spells. The model knows a
  finite float by its \<open>repr\<close>, so the result is exact on the numerals \<open>float.__repr__\<close>
  prints, the only ones the encoder writes.\<close>

definition match_number :: "string \<Rightarrow> (pyval \<times> string) option" where
  "match_number s =
     (case match_int s of
        None \<Rightarrow> None
      | Some (i, s1) \<Rightarrow>
          (case match_frac s1 of
             (f, s2) \<Rightarrow>
               (case match_exp s2 of
                  (x, s3) \<Rightarrow>
                    if f \<noteq> [] \<or> x \<noteq> [] then Some (PFloat (Finite (i @ f @ x)), s3)
                    else Some (PInt (int_of_text i), s3))))"

text \<open>
  One value at the start of the text (\<open>scan_once\<close>), the items of an array after its
  bracket (\<open>JSONArray\<close>) and the items of an object from the quote of a name
  (\<open>JSONObject\<close>). The number counts the calls still allowed: every call uses one, and a
  text of \<open>n\<close> characters needs no more than \<open>n\<close>.
\<close>

fun parse_value :: "bool \<Rightarrow> nat \<Rightarrow> string \<Rightarrow> (pyval \<times> string) option"
  and parse_array :: "bool \<Rightarrow> nat \<Rightarrow> string \<Rightarrow> pyval list \<Rightarrow> (pyval \<times> string) option"
  and parse_object :: "bool \<Rightarrow> nat \<Rightarrow> string \<Rightarrow> (pykey \<times> pyval) list \<Rightarrow> (pyval \<times> string) option"
where
  "parse_value allow_nan 0 s = None"
| "parse_value allow_nan (Suc n) s =
     (case s of
        [] \<Rightarrow> None
      | c # r \<Rightarrow>
          if c = CHR 0x22 then
            (case scanstring r [] of None \<Rightarrow> None | Some (str, r1) \<Rightarrow> Some (PStr str, r1))
          else if c = CHR ''{'' then
            (case skip_ws r of
               [] \<Rightarrow> None
             | d # r1 \<Rightarrow>
                 if d = CHR ''}'' then Some (PDict [], r1)
                 else parse_object allow_nan n (d # r1) [])
          else if c = CHR ''['' then
            (case skip_ws r of
               [] \<Rightarrow> None
             | d # r1 \<Rightarrow>
                 if d = CHR '']'' then Some (PList [], r1)
                 else parse_array allow_nan n (d # r1) [])
          else if take 4 s = ''null'' then Some (PNone, drop 4 s)
          else if take 4 s = ''true'' then Some (PBool True, drop 4 s)
          else if take 5 s = ''false'' then Some (PBool False, drop 5 s)
          else
            (case match_number s of
               Some res \<Rightarrow> Some res
             | None \<Rightarrow>
                 if \<not> allow_nan then None
                 else if take 3 s = ''NaN'' then Some (PFloat NaN, drop 3 s)
                 else if take 8 s = ''Infinity'' then Some (PFloat PosInf, drop 8 s)
                 else if take 9 s = ''-Infinity'' then Some (PFloat NegInf, drop 9 s)
                 else None))"
| "parse_array allow_nan 0 s acc = None"
| "parse_array allow_nan (Suc n) s acc =
     (case parse_value allow_nan n s of
        None \<Rightarrow> None
      | Some (v, r) \<Rightarrow>
          (case skip_ws r of
             [] \<Rightarrow> None
           | c # r1 \<Rightarrow>
               if c = CHR '']'' then Some (PList (acc @ [v]), r1)
               else if c = CHR '','' then parse_array allow_nan n (skip_ws r1) (acc @ [v])
               else None))"
| "parse_object allow_nan 0 s acc = None"
| "parse_object allow_nan (Suc n) s acc =
     (case s of
        [] \<Rightarrow> None
      | c # r \<Rightarrow>
          if c \<noteq> CHR 0x22 then None
          else
            (case scanstring r [] of
               None \<Rightarrow> None
             | Some (key, r1) \<Rightarrow>
                 (case skip_ws r1 of
                    [] \<Rightarrow> None
                  | c1 # r2 \<Rightarrow>
                      if c1 \<noteq> CHR '':'' then None
                      else
                        (case parse_value allow_nan n (skip_ws r2) of
                           None \<Rightarrow> None
                         | Some (v, r3) \<Rightarrow>
                             (case skip_ws r3 of
                                [] \<Rightarrow> None
                              | c3 # r4 \<Rightarrow>
                                  if c3 = CHR ''}'' then Some (PDict (dict_set (KStr key) v acc), r4)
                                  else if c3 = CHR '','' then
                                    parse_object allow_nan n (skip_ws r4) (dict_set (KStr key) v acc)
                                  else None)))))"

text \<open>The whole text is one value, with white space around it at most.\<close>

definition json_loads :: "bool \<Rightarrow> string \<Rightarrow> pyval option" where
  "json_loads allow_nan s =
     (case parse_value allow_nan (length s) (skip_ws s) of
        None \<Rightarrow> None
      | Some (v, r) \<Rightarrow> if skip_ws r = [] then Some v else None)"

section \<open>What comes back\<close>

text \<open>
  The value \<open>json.loads\<close> returns for the text the encoder wrote for a value: a tuple comes
  back as a list, a key as the string the encoder wrote for it, a dictionary as
  \<open>dict(pairs)\<close> of its items under those keys, and in a string a high surrogate followed
  by a low one comes back as the one code point the pair spells.
\<close>

fun join_surrogates :: "pystr \<Rightarrow> pystr" where
  "join_surrogates (h # l # s) =
     (if 0xD800 \<le> h \<and> h \<le> 0xDBFF \<and> 0xDC00 \<le> l \<and> l \<le> 0xDFFF
      then (0x10000 + (h - 0xD800) * 1024 + (l - 0xDC00)) # join_surrogates s
      else h # join_surrogates (l # s))"
| "join_surrogates [c] = [c]"
| "join_surrogates [] = []"

definition dict_of :: "('k \<times> 'v) list \<Rightarrow> ('k \<times> 'v) list" where
  "dict_of pairs = foldl (\<lambda>d (k, v). dict_set k v d) [] pairs"

fun jnorm :: "pyval \<Rightarrow> pyval" where
  "jnorm (PStr s) = PStr (join_surrogates s)"
| "jnorm (PList lst) = PList (map jnorm lst)"
| "jnorm (PTuple lst) = PList (map jnorm lst)"
| "jnorm (PDict dct) =
     PDict (dict_of (map (\<lambda>(k, v). (KStr (join_surrogates (key_text k)), jnorm v)) dct))"
| "jnorm v = v"

section \<open>Values of the model that are Python values, and values JSON can represent\<close>

text \<open>A \<open>str\<close> holds code points up to \<open>0x10FFFF\<close>.\<close>

definition valid_str :: "pystr \<Rightarrow> bool" where
  "valid_str s = (\<forall>c \<in> set s. c < 0x110000)"

text \<open>The text of a finite float is a numeral with a fraction or an exponent, as
  \<open>float.__repr__\<close> prints it (\<open>1.0\<close>, \<open>-2.5e-07\<close>, \<open>1e+16\<close>).\<close>

definition float_repr_ok :: "string \<Rightarrow> bool" where
  "float_repr_ok r = (match_number r = Some (PFloat (Finite r), []))"

fun wf_float :: "pyfloat \<Rightarrow> bool" where
  "wf_float (Finite r) = float_repr_ok r"
| "wf_float f = True"

fun wf_key :: "pykey \<Rightarrow> bool" where
  "wf_key (KStr s) = valid_str s"
| "wf_key (KFloat f) = wf_float f"
| "wf_key k = True"

fun wf_val :: "pyval \<Rightarrow> bool" where
  "wf_val (PStr s) = valid_str s"
| "wf_val (PFloat f) = wf_float f"
| "wf_val (PList lst) = (\<forall>v \<in> set lst. wf_val v)"
| "wf_val (PTuple lst) = (\<forall>v \<in> set lst. wf_val v)"
| "wf_val (PDict dct) = (\<forall>(k, v) \<in> set dct. wf_key k \<and> wf_val v)"
| "wf_val v = True"

text \<open>No \<open>nan\<close>, \<open>inf\<close> or \<open>-inf\<close> among the values.\<close>

fun finite_float :: "pyfloat \<Rightarrow> bool" where
  "finite_float (Finite r) = True"
| "finite_float f = False"

fun finite_floats :: "pyval \<Rightarrow> bool" where
  "finite_floats (PFloat f) = finite_float f"
| "finite_floats (PList lst) = (\<forall>v \<in> set lst. finite_floats v)"
| "finite_floats (PTuple lst) = (\<forall>v \<in> set lst. finite_floats v)"
| "finite_floats (PDict dct) = (\<forall>(k, v) \<in> set dct. finite_floats v)"
| "finite_floats v = True"

text \<open>
  The JSON-representable values of the specification: null, booleans, numbers, strings,
  arrays and mappings from string keys, nested. A string is Unicode text (no surrogate
  code points), a number is an int or a finite float, a mapping has each key once.
\<close>

definition unicode_text :: "pystr \<Rightarrow> bool" where
  "unicode_text s = (\<forall>c \<in> set s. c < 0xD800 \<or> (0xE000 \<le> c \<and> c < 0x110000))"

fun representable_key :: "pykey \<Rightarrow> bool" where
  "representable_key (KStr s) = unicode_text s"
| "representable_key k = False"

fun json_representable :: "pyval \<Rightarrow> bool" where
  "json_representable PNone = True"
| "json_representable (PBool b) = True"
| "json_representable (PInt i) = True"
| "json_representable (PFloat f) = (finite_float f \<and> wf_float f)"
| "json_representable (PStr s) = unicode_text s"
| "json_representable (PList lst) = (\<forall>v \<in> set lst. json_representable v)"
| "json_representable (PTuple lst) = False"
| "json_representable (PDict dct) =
     (distinct (map fst dct) \<and> (\<forall>(k, v) \<in> set dct. representable_key k \<and> json_representable v))"
| "json_representable (PObject cls) = False"

section \<open>Auxiliary notions of the proofs\<close>

text \<open>The four hexadecimal digits of a \<open>\uXXXX\<close> escape.\<close>

definition hex4 :: "nat \<Rightarrow> string" where
  "hex4 n = [hex_char (n div 4096 mod 16), hex_char (n div 256 mod 16),
     hex_char (n div 16 mod 16), hex_char (n mod 16)]"

text \<open>A text that cannot continue a number: it is empty or starts with a character that is
  no digit, point or exponent mark.\<close>

definition num_end :: "string \<Rightarrow> bool" where
  "num_end rest =
     (case rest of
        [] \<Rightarrow> True
      | c # r \<Rightarrow> \<not> is_digit c \<and> c \<noteq> CHR ''.'' \<and> c \<noteq> CHR ''e'' \<and> c \<noteq> CHR ''E'')"

text \<open>A character no white space and no punctuation of a container.\<close>

definition value_start :: "char \<Rightarrow> bool" where
  "value_start c = (\<not> is_ws c \<and> c \<noteq> CHR '']'' \<and> c \<noteq> CHR ''}'' \<and> c \<noteq> CHR '','' \<and> c \<noteq> CHR '':'')"

section \<open>Example runs\<close>

definition empty_world :: world where
  "empty_world = \<lparr>files = Map.empty, stdout = []\<rparr>"

text \<open>A store that cannot be reached.\<close>

definition unreachable_env :: env where
  "unreachable_env =
     \<lparr>db_keys = Inl ''connection refused'', db_get = (\<lambda>k. Inl ''connection refused''),
      can_open = True, write_budget = None\<rparr>"

text \<open>A store with the keys \<open>a\<close> and \<open>b\<close>, where reading \<open>b\<close> fails.\<close>

definition unreadable_env :: env where
  "unreadable_env =
     \<lparr>db_keys = Inr [str_of ''a'', str_of ''b''],
      db_get = (\<lambda>k. if k = str_of ''a'' then Inr (PInt 1) else Inl ''read failed''),
      can_open = True, write_budget = None\<rparr>"

text \<open>The store \<open>{"a": 1, "s": {1, 2}}\<close>: the second value is a Python set.\<close>

definition set_env :: env where
  "set_env =
     \<lparr>db_keys = Inr [str_of ''a'', str_of ''s''],
      db_get = (\<lambda>k. if k = str_of ''a'' then Inr (PInt 1) else Inr (PObject ''set'')),
      can_open = True, write_budget = None\<rparr>"

text \<open>The store \<open>{"x": nan}\<close>.\<close>

definition nan_env :: env where
  "nan_env =
     \<lparr>db_keys = Inr [str_of ''x''], db_get = (\<lambda>k. Inr (PFloat NaN)),
      can_open = True, write_budget = None\<rparr>"

text \<open>The store of the specification's scenario:
  \<open>{"score": 42, "name": "alice", "tags": ["a", "b"]}\<close>.\<close>

definition scenario_env :: env where
  "scenario_env =
     \<lparr>db_keys = Inr [str_of ''score'', str_of ''name'', str_of ''tags''],
      db_get = (\<lambda>k. if k = str_of ''score'' then Inr (PInt 42)
                    else if k = str_of ''name'' then Inr (PStr (str_of ''alice''))
                    else if k = str_of ''tags'' then Inr (PList [PStr (str_of ''a''), PStr (str_of ''b'')])
                    else Inl ''KeyError''),
      can_open = True, write_budget = None\<rparr>"

text \<open>The empty store.\<close>

definition empty_env :: env where
  "empty_env = \<lparr>db_keys = Inr [], db_get = (\<lambda>k. Inl ''KeyError''), can_open = True, write_budget = None\<rparr>"

section \<open>The dictionary: keys and values\<close>

lemma dict_set_keys:
  "map fst (dict_set k v d) = (if k \<in> set (map fst d) then map fst d else map fst d @ [k])"
  by (induction d) (auto simp: rev_image_eqI)

lemma dict_set_map_of: "map_of (dict_set k v d) = (map_of d)(k \<mapsto> v)"
  by (induction d) auto

lemma first_occ_Cons:
  "rev (remdups (rev (x # xs))) = x # filter (\<lambda>y. y \<noteq> x) (rev (remdups (rev xs)))"
proof -
  have "remdups (ys @ [x]) = filter (\<lambda>y. y \<noteq> x) (remdups ys) @ [x]" for ys :: "'a list"
    by (induction ys) auto
  then show ?thesis by (simp add: rev_filter)
qed

lemma accumulate_Cons:
  assumes "accumulate get (key # keys) d = Inr data"
  obtains v where "get key = Inr v"
    and "accumulate get keys (dict_set (KStr key) v d) = Inr data"
  using assms by (auto split: sum.splits)

lemma accumulate_keys:
  "accumulate get ks d = Inr data \<Longrightarrow>
   map fst data =
     map fst d @ filter (\<lambda>k. k \<notin> set (map fst d)) (map KStr (rev (remdups (rev ks))))"
proof (induction ks arbitrary: d)
  case Nil
  then show ?case by simp
next
  case (Cons key keys)
  from Cons.prems obtain v where
    acc: "accumulate get keys (dict_set (KStr key) v d) = Inr data"
    by (rule accumulate_Cons)
  have fm: "filter P (map KStr (filter Q xs)) =
      filter (\<lambda>k. P k \<and> (\<forall>s. k = KStr s \<longrightarrow> Q s)) (map KStr xs)"
    for P Q and xs :: "pystr list"
    by (induction xs) auto
  show ?case
    unfolding Cons.IH [OF acc] first_occ_Cons dict_set_keys
    by (auto simp: fm intro!: filter_cong)
qed

lemma accumulate_map_of:
  "accumulate get ks d = Inr data \<Longrightarrow>
   map_of data =
     (\<lambda>k. case k of
        KStr s \<Rightarrow> if s \<in> set ks then (case get s of Inr v \<Rightarrow> Some v | Inl m \<Rightarrow> None)
                 else map_of d k
      | _ \<Rightarrow> map_of d k)"
proof (induction ks arbitrary: d)
  case Nil
  then show ?case by (auto split: pykey.splits)
next
  case (Cons key keys)
  from Cons.prems obtain v where v: "get key = Inr v"
    and acc: "accumulate get keys (dict_set (KStr key) v d) = Inr data"
    by (rule accumulate_Cons)
  show ?case
    unfolding Cons.IH [OF acc] dict_set_map_of
    by (auto simp: fun_eq_iff v split: pykey.splits)
qed

lemma accumulate_fails:
  "k \<in> set ks \<Longrightarrow> get k = Inl m \<Longrightarrow> \<exists>m'. accumulate get ks d = Inl (StoreUnavailable m')"
  by (induction ks arbitrary: d) (auto split: sum.splits)

lemma accumulate_succeeds:
  "\<forall>k \<in> set ks. \<exists>v. get k = Inr v \<Longrightarrow> \<exists>data. accumulate get ks d = Inr data"
  by (induction ks arbitrary: d) (auto split: sum.splits)

lemma accumulate_distinct:
  "accumulate get ks d = Inr data \<Longrightarrow> distinct (map fst d) \<Longrightarrow> distinct (map fst data)"
proof (induction ks arbitrary: d)
  case Nil
  then show ?case by simp
next
  case (Cons key keys)
  from Cons.prems(1) obtain v where
    acc: "accumulate get keys (dict_set (KStr key) v d) = Inr data"
    by (rule accumulate_Cons)
  have "distinct (map fst (dict_set (KStr key) v d))"
    using Cons.prems(2) by (simp add: dict_set_keys)
  with Cons.IH [OF acc] show ?case .
qed

lemma accumulate_key_set:
  "accumulate get ks d = Inr data \<Longrightarrow> set (map fst data) = set (map fst d) \<union> KStr ` set ks"
proof (induction ks arbitrary: d)
  case Nil
  then show ?case by simp
next
  case (Cons key keys)
  from Cons.prems obtain v where
    acc: "accumulate get keys (dict_set (KStr key) v d) = Inr data"
    by (rule accumulate_Cons)
  show ?case
    unfolding Cons.IH [OF acc] dict_set_keys by auto
qed

section \<open>The chunks add up to the document\<close>

lemma seqc_simps2 [simp]:
  "fst (seqc a b) = fst a @ (if snd a = None then fst b else [])"
  "snd (seqc a b) = (case snd a of None \<Rightarrow> snd b | Some e \<Rightarrow> Some e)"
  by (cases a; cases b; cases "snd a"; simp)+

lemma gen_simps [simp]:
  "fst (yield s) = [s]" "snd (yield s) = None"
  "fst (raise e) = []" "snd (raise e) = Some e"
  "fst done_c = []" "snd done_c = None"
  by (simp_all add: yield_def raise_def done_c_def)

lemma scalar_text_Some:
  assumes "scalar_text v = Some t"
  shows "json_text v lvl = t" and "iterencode v lvl = yield t" and "encodable v"
  using assms by (cases v; auto)+

lemma iterencode_ok:
  "encodable v \<Longrightarrow> snd (iterencode v lvl) = None \<and> concat (fst (iterencode v lvl)) = json_text v lvl"
  "(\<forall>v \<in> set vs. encodable v) \<Longrightarrow> snd (iterencode_list buf vs lvl) = None \<and>
      concat (fst (iterencode_list buf vs lvl)) = (if vs = [] then [] else buf @ items_text vs lvl)"
  "(\<forall>(k, v) \<in> set kvs. key_encodable k \<and> encodable v) \<Longrightarrow> snd (iterencode_dict first kvs lvl) = None \<and>
      concat (fst (iterencode_dict first kvs lvl)) =
        (if kvs = [] then [] else (if first then [] else CHR '','' # newline_indent lvl) @ members_text kvs lvl)"
proof (induction v lvl and buf vs lvl and first kvs lvl rule: iterencode_iterencode_list_iterencode_dict.induct)
  case (11 buf v vs lvl)
  then show ?case
    by (cases "scalar_text v") (auto simp: scalar_text_Some)
next
  case (13 first key v items lvl)
  then show ?case
    by (cases key) (auto simp: key_text_def)
qed auto

lemma iterencode_exn:
  "snd (iterencode v lvl) = Some x \<Longrightarrow> \<exists>m. x = SerializationError m"
  "snd (iterencode_list buf vs lvl) = Some x \<Longrightarrow> \<exists>m. x = SerializationError m"
  "snd (iterencode_dict first kvs lvl) = Some x \<Longrightarrow> \<exists>m. x = SerializationError m"
proof (induction v lvl and buf vs lvl and first kvs lvl rule: iterencode_iterencode_list_iterencode_dict.induct)
  case (11 buf v vs lvl)
  then show ?case
    by (cases "scalar_text v") (auto simp: scalar_text_Some split: option.splits)
next
  case (13 first key v items lvl)
  then show ?case
    by (cases key) (auto split: option.splits if_splits)
qed (auto split: option.splits if_splits)

lemma iterencode_fails:
  "\<not> encodable v \<Longrightarrow> snd (iterencode v lvl) \<noteq> None"
  "\<not> (\<forall>v \<in> set vs. encodable v) \<Longrightarrow> snd (iterencode_list buf vs lvl) \<noteq> None"
  "\<not> (\<forall>(k, v) \<in> set kvs. key_encodable k \<and> encodable v) \<Longrightarrow> snd (iterencode_dict first kvs lvl) \<noteq> None"
proof (induction v lvl and buf vs lvl and first kvs lvl rule: iterencode_iterencode_list_iterencode_dict.induct)
  case (11 buf v vs lvl)
  then show ?case
    by (cases "scalar_text v") (auto simp: scalar_text_Some split: option.splits)
next
  case (13 first key v items lvl)
  then show ?case
    by (cases key) (auto split: option.splits)
qed (fastforce split: option.splits)+

section \<open>Strings come back\<close>

lemma hex4_id:
  assumes "n < 65536"
  shows "((n div 4096 mod 16 * 16 + n div 256 mod 16) * 16 + n div 16 mod 16) * 16 + n mod 16 = (n::nat)"
proof -
  have a: "n div 4096 mod 16 = n div 4096"
    using assms by (simp add: less_mult_imp_div_less)
  have b: "n div 256 = n div 4096 * 16 + n div 256 mod 16"
    using div_mult_mod_eq [of "n div 256" 16] by (simp add: div_mult2_eq [symmetric])
  have c: "n div 16 = n div 256 * 16 + n div 16 mod 16"
    using div_mult_mod_eq [of "n div 16" 16] by (simp add: div_mult2_eq [symmetric])
  have d: "n = n div 16 * 16 + n mod 16"
    by simp
  show ?thesis
    unfolding a using b c d by simp
qed

lemma hex_val_hex_char: "d < 16 \<Longrightarrow> hex_val (hex_char d) = Some d"
  by (simp add: hex_val_def hex_char_def Let_def)

lemma u_escape_hex4: "u_escape n = CHR 0x5C # CHR ''u'' # hex4 n"
  by (simp add: u_escape_def hex4_def)

lemma decode_hex4: "n < 65536 \<Longrightarrow> decode_uXXXX (hex4 n @ t) = Some (n, t)"
  using hex4_id [of n] by (simp add: hex4_def hex_val_hex_char)

lemma char_of_eq_CHR: "(c::nat) < 256 \<Longrightarrow> (char_of c = d) = (c = of_char d)"
  by (auto simp: char_of_eq_iff take_bit_eq_mod)

lemma scan_u_escape:
  assumes "n < 65536"
  shows "scanstring (u_escape n @ t) acc =
     (if 0xD800 \<le> n \<and> n \<le> 0xDBFF \<and> take 2 t = [CHR 0x5C, CHR ''u''] then
        (case decode_uXXXX (drop 2 t) of
           None \<Rightarrow> None
         | Some (uni2, s3) \<Rightarrow>
             if 0xDC00 \<le> uni2 \<and> uni2 \<le> 0xDFFF
             then scanstring s3 (acc @ [0x10000 + (n - 0xD800) * 1024 + (uni2 - 0xDC00)])
             else scanstring t (acc @ [n]))
      else scanstring t (acc @ [n]))"
  using assms by (simp add: u_escape_hex4 decode_hex4)

lemma take2_u_escape: "take 2 (u_escape n @ t) = [CHR 0x5C, CHR ''u'']"
  "drop 2 (u_escape n @ t) = hex4 n @ t"
  by (simp_all add: u_escape_hex4)

lemma escape_cases:
  fixes c :: nat
  obtains (short) "c = 0x5C \<or> c = 0x22 \<or> c = 0x08 \<or> c = 0x0C \<or> c = 0x0A \<or> c = 0x0D \<or> c = 0x09"
    | (plain) "0x20 \<le> c" "c \<le> 0x7E" "c \<noteq> 0x5C" "c \<noteq> 0x22"
    | (bmp) "c < 0x10000" "c < 0x20 \<or> 0x7E < c" "c \<noteq> 0x08" "c \<noteq> 0x0C" "c \<noteq> 0x0A" "c \<noteq> 0x0D" "c \<noteq> 0x09"
    | (supp) "0x10000 \<le> c"
proof (cases "c = 0x5C \<or> c = 0x22 \<or> c = 0x08 \<or> c = 0x0C \<or> c = 0x0A \<or> c = 0x0D \<or> c = 0x09")
  case True
  then show ?thesis by (rule short)
next
  case ns: False
  show ?thesis
  proof (cases "0x20 \<le> c \<and> c \<le> 0x7E")
    case True
    with ns show ?thesis by (intro plain) simp_all
  next
    case np: False
    show ?thesis
    proof (cases "c < 0x10000")
      case True
      with ns np show ?thesis by (intro bmp) auto
    next
      case False
      then show ?thesis by (intro supp) simp
    qed
  qed
qed

lemma scan_escape_not_high:
  assumes "c < 0x110000" and "\<not> (0xD800 \<le> c \<and> c \<le> 0xDBFF)"
  shows "scanstring (escape_char c @ t) acc = scanstring t (acc @ [c])"
proof -
  consider (short) "c = 0x5C \<or> c = 0x22 \<or> c = 0x08 \<or> c = 0x0C \<or> c = 0x0A \<or> c = 0x0D \<or> c = 0x09"
    | (plain) "0x20 \<le> c" "c \<le> 0x7E" "c \<noteq> 0x5C" "c \<noteq> 0x22"
    | (bmp) "c < 0x10000" "c < 0x20 \<or> 0x7E < c" "c \<noteq> 0x08" "c \<noteq> 0x0C" "c \<noteq> 0x0A" "c \<noteq> 0x0D" "c \<noteq> 0x09"
    | (supp) "0x10000 \<le> c"
    by (rule escape_cases)
  then show ?thesis
  proof cases
    case short
    then show ?thesis by (auto simp: escape_char_def unescape_def)
  next
    case plain
    then show ?thesis by (simp add: escape_char_def char_of_eq_CHR)
  next
    case bmp
    have "escape_char c = u_escape c"
      using bmp by (auto simp: escape_char_def)
    then show ?thesis
      using bmp(1) assms(2) by (auto simp: scan_u_escape)
  next
    case supp
    define hi lo where "hi = 0xD800 + ((c - 0x10000) div 1024) mod 1024"
      and "lo = 0xDC00 + (c - 0x10000) mod 1024"
    have e: "escape_char c = u_escape hi @ u_escape lo"
      using supp by (simp add: escape_char_def hi_def lo_def)
    have d1: "(c - 0x10000) div 1024 < 1024"
      using assms(1) by (simp add: less_mult_imp_div_less)
    have hi: "0xD800 \<le> hi" "hi \<le> 0xDBFF" "hi < 65536"
      using d1 by (simp_all add: hi_def)
    have lo: "0xDC00 \<le> lo" "lo \<le> 0xDFFF" "lo < 65536"
      by (simp_all add: lo_def) 
    have comb: "0x10000 + (hi - 0xD800) * 1024 + (lo - 0xDC00) = c"
      using supp d1 by (simp add: hi_def lo_def)
    show ?thesis
      unfolding e append_assoc
      by (simp add: scan_u_escape [OF hi(3)] hi(1,2) take2_u_escape decode_hex4 [OF lo(3)] lo(1,2) comb
          del: take_append drop_append)
  qed
qed

lemma scan_escape_high:
  assumes "0xD800 \<le> c" "c \<le> 0xDBFF"
  shows "scanstring (escape_char c @ t) acc =
     (if take 2 t = [CHR 0x5C, CHR ''u''] then
        (case decode_uXXXX (drop 2 t) of
           None \<Rightarrow> None
         | Some (uni2, s3) \<Rightarrow>
             if 0xDC00 \<le> uni2 \<and> uni2 \<le> 0xDFFF
             then scanstring s3 (acc @ [0x10000 + (c - 0xD800) * 1024 + (uni2 - 0xDC00)])
             else scanstring t (acc @ [c]))
      else scanstring t (acc @ [c]))"
proof -
  have "escape_char c = u_escape c"
    using assms by (simp add: escape_char_def)
  then show ?thesis
    using assms by (simp add: scan_u_escape)
qed

text \<open>What a high surrogate finds after it.\<close>

lemma after_low:
  assumes "0xDC00 \<le> l" "l \<le> 0xDFFF"
  shows "take 2 (escape_char l @ t) = [CHR 0x5C, CHR ''u'']"
    and "decode_uXXXX (drop 2 (escape_char l @ t)) = Some (l, t)"
proof -
  have "escape_char l = u_escape l"
    using assms by (simp add: escape_char_def)
  then show "take 2 (escape_char l @ t) = [CHR 0x5C, CHR ''u'']"
    and "decode_uXXXX (drop 2 (escape_char l @ t)) = Some (l, t)"
    using assms by (simp_all add: take2_u_escape decode_hex4 del: take_append drop_append)
qed

lemma short_escape:
  assumes "l = 0x5C \<or> l = 0x22 \<or> l = 0x08 \<or> l = 0x0C \<or> l = 0x0A \<or> l = 0x0D \<or> l = 0x09"
  shows "\<exists>x. escape_char l = [CHR 0x5C, x] \<and> x \<noteq> CHR ''u''"
  using assms by (elim disjE) (simp_all add: escape_char_def)

lemma after_not_low:
  assumes "l < 0x110000" "\<not> (0xDC00 \<le> l \<and> l \<le> 0xDFFF)"
  shows "take 2 (escape_char l @ t) \<noteq> [CHR 0x5C, CHR ''u''] \<or>
     (\<exists>u s3. decode_uXXXX (drop 2 (escape_char l @ t)) = Some (u, s3) \<and> \<not> (0xDC00 \<le> u \<and> u \<le> 0xDFFF))"
proof (cases l rule: escape_cases)
  case short
  from short_escape [OF short] obtain x where "escape_char l = [CHR 0x5C, x]" "x \<noteq> CHR ''u''"
    by blast
  then show ?thesis by simp
next
  case plain
  then have "escape_char l = [char_of l]"
    by (simp add: escape_char_def)
  moreover have "char_of l \<noteq> CHR 0x5C"
    using plain by (simp add: char_of_eq_CHR)
  ultimately show ?thesis by (cases t) simp_all
next
  case bmp
  have "escape_char l = u_escape l"
    using bmp by (auto simp: escape_char_def)
  then have "decode_uXXXX (drop 2 (escape_char l @ t)) = Some (l, t)"
    using bmp(1) by (simp add: take2_u_escape decode_hex4 del: take_append drop_append)
  with assms(2) show ?thesis by blast
next
  case supp
  define hi lo where "hi = 0xD800 + ((l - 0x10000) div 1024) mod 1024"
    and "lo = 0xDC00 + (l - 0x10000) mod 1024"
  have e: "escape_char l = u_escape hi @ u_escape lo"
    using supp by (simp add: escape_char_def hi_def lo_def)
  have d1: "(l - 0x10000) div 1024 < 1024"
    using assms(1) by (simp add: less_mult_imp_div_less)
  have hi: "0xD800 \<le> hi" "hi \<le> 0xDBFF" "hi < 65536"
    using d1 by (simp_all add: hi_def)
  have "decode_uXXXX (drop 2 (escape_char l @ t)) = Some (hi, u_escape lo @ t)"
    unfolding e append_assoc
    using hi(3) by (simp add: take2_u_escape decode_hex4 del: take_append drop_append)
  with hi(1,2) show ?thesis by auto
qed

lemma scanstring_escaped:
  "\<forall>c \<in> set s. c < 0x110000 \<Longrightarrow>
   scanstring (concat (map escape_char s) @ CHR 0x22 # rest) acc = Some (acc @ join_surrogates s, rest)"
proof (induction s arbitrary: acc rule: join_surrogates.induct)
  case (1 h l s)
  let ?t = "concat (map escape_char s) @ CHR 0x22 # rest"
  have h: "h < 0x110000" and l: "l < 0x110000" and s: "\<forall>c \<in> set s. c < 0x110000"
    and ls: "\<forall>c \<in> set (l # s). c < 0x110000"
    using "1.prems" by simp_all
  show ?case
  proof (cases "0xD800 \<le> h \<and> h \<le> 0xDBFF")
    case False
    then show ?thesis
      using scan_escape_not_high [OF h False] "1.IH"(2) [OF _ ls] by auto
  next
    case high: True
    show ?thesis
    proof (cases "0xDC00 \<le> l \<and> l \<le> 0xDFFF")
      case True
      then show ?thesis
        using high "1.IH"(1) [OF _ s] after_low [of l ?t]
        by (simp add: scan_escape_high)
    next
      case False
      from after_not_low [OF l False, of ?t] show ?thesis
        using high False "1.IH"(2) [OF _ ls]
        by (auto simp: scan_escape_high)
    qed
  qed
next
  case (2 v)
  then show ?case
    by (cases "0xD800 \<le> v \<and> v \<le> 0xDBFF") (simp_all add: scan_escape_high scan_escape_not_high)
next
  case 3
  then show ?case by simp
qed

section \<open>Numbers come back\<close>

lemma digit_char_props:
  assumes "d < 10"
  shows "is_digit (digit_char d)" and "of_char (digit_char d) - 48 = d"
    and "digit_char d \<noteq> CHR ''-''" and "(digit_char d = CHR ''0'') = (d = 0)"
  using assms by (simp_all add: digit_char_def is_digit_def char_of_eq_iff take_bit_eq_mod)

lemma nat_digits_digits: "\<forall>c \<in> set (nat_digits n). is_digit c"
proof (induction n rule: nat_digits.induct)
  case (1 n)
  then show ?case
    by (subst nat_digits.simps) (auto simp: digit_char_props)
qed

lemma nat_digits_hd: "\<exists>c r. nat_digits n = c # r \<and> is_digit c \<and> (c = CHR ''0'' \<longrightarrow> n = 0 \<and> r = [])"
proof (induction n rule: nat_digits.induct)
  case (1 n)
  show ?case
  proof (cases "n < 10")
    case True
    then show ?thesis
      by (subst nat_digits.simps) (simp add: digit_char_props)
  next
    case False
    with 1 obtain c r where cr: "nat_digits (n div 10) = c # r" "is_digit c"
      "c = CHR ''0'' \<longrightarrow> n div 10 = 0 \<and> r = []"
      by blast
    from False have "n div 10 \<noteq> 0" by simp
    with cr False show ?thesis
      by (subst nat_digits.simps) auto
  qed
qed

lemma nat_of_digits_snoc: "nat_of_digits (ds @ [c]) = 10 * nat_of_digits ds + (of_char c - 48)"
  by (simp add: nat_of_digits_def)

lemma nat_of_digits_nat_digits: "nat_of_digits (nat_digits n) = n"
proof (induction n rule: nat_digits.induct)
  case (1 n)
  show ?case
  proof (cases "n < 10")
    case True
    then show ?thesis
      by (subst nat_digits.simps) (simp add: nat_of_digits_def digit_char_props)
  next
    case False
    with 1 have "nat_of_digits (nat_digits (n div 10)) = n div 10" by simp
    with False show ?thesis
      by (subst nat_digits.simps) (simp add: nat_of_digits_snoc digit_char_props)
  qed
qed

lemma match_int_nat_digits: "match_int (nat_digits n) = Some (nat_digits n, [])"
proof -
  from nat_digits_hd [of n] obtain c r where cr: "nat_digits n = c # r" "is_digit c"
    "c = CHR ''0'' \<longrightarrow> n = 0 \<and> r = []"
    by blast
  have "\<forall>c \<in> set r. is_digit c"
    using nat_digits_digits [of n] cr(1) by simp
  moreover have "c \<noteq> CHR ''-''"
    using cr(2) by (auto simp: is_digit_def)
  ultimately show ?thesis
    using cr by (auto simp: match_int_def match_sign_def)
qed

lemma match_int_neg: "0 < n \<Longrightarrow> match_int (CHR ''-'' # nat_digits n) = Some (CHR ''-'' # nat_digits n, [])"
proof -
  assume n: "0 < n"
  from nat_digits_hd [of n] obtain c r where cr: "nat_digits n = c # r" "is_digit c"
    "c = CHR ''0'' \<longrightarrow> n = 0 \<and> r = []"
    by blast
  have "\<forall>c \<in> set r. is_digit c"
    using nat_digits_digits [of n] cr(1) by simp
  then show ?thesis
    using cr n by (auto simp: match_int_def match_sign_def)
qed

lemma int_of_text_intstr: "int_of_text (intstr i) = i"
proof (cases "i < 0")
  case True
  then show ?thesis
    by (simp add: intstr_def int_of_text_def nat_of_digits_nat_digits)
next
  case False
  from nat_digits_hd [of "nat i"] obtain c r where cr: "nat_digits (nat i) = c # r" "is_digit c"
    by blast
  then have "c \<noteq> CHR ''-''" by (auto simp: is_digit_def)
  with cr have "int_of_text (nat_digits (nat i)) = int (nat_of_digits (nat_digits (nat i)))"
    by (simp add: int_of_text_def)
  with False show ?thesis
    by (simp add: intstr_def nat_of_digits_nat_digits)
qed

lemma match_number_intstr: "match_number (intstr i) = Some (PInt i, [])"
proof -
  have "match_int (intstr i) = Some (intstr i, [])"
    by (simp add: intstr_def match_int_nat_digits match_int_neg)
  then show ?thesis
    by (simp add: match_number_def match_frac_def match_exp_def int_of_text_intstr)
qed

text \<open>A number ends where the text after it cannot continue it.\<close>

lemma takeWhile_digit_append:
  assumes "num_end rest"
  shows "takeWhile is_digit (xs @ rest) = takeWhile is_digit xs"
    and "dropWhile is_digit (xs @ rest) = dropWhile is_digit xs @ rest"
proof -
  have "takeWhile is_digit rest = [] \<and> dropWhile is_digit rest = rest"
    using assms by (cases rest) (simp_all add: num_end_def)
  then show "takeWhile is_digit (xs @ rest) = takeWhile is_digit xs"
    and "dropWhile is_digit (xs @ rest) = dropWhile is_digit xs @ rest"
    by (induction xs) simp_all
qed

lemma match_int_append:
  assumes "match_int r = Some (i, s1)" and "num_end rest"
  shows "match_int (r @ rest) = Some (i, s1 @ rest)"
proof -
  obtain sg r1 where sg: "match_sign r = (sg, r1)" by (cases "match_sign r")
  from assms(1) sg obtain c r2 where r1: "r1 = c # r2"
    by (cases r1) (simp_all add: match_int_def)
  have sg': "match_sign (r @ rest) = (sg, r1 @ rest)"
    using sg r1 by (cases r) (auto simp: match_sign_def split: if_splits)
  show ?thesis
    using assms(1) sg r1
    by (auto simp: match_int_def sg' takeWhile_digit_append [OF assms(2)] split: if_splits)
qed

lemma match_frac_append:
  assumes "match_frac s1 = (f, s2)" and "num_end rest"
  shows "match_frac (s1 @ rest) = (f, s2 @ rest)"
proof (cases s1)
  case Nil
  with assms show ?thesis
    by (cases rest) (auto simp: match_frac_def num_end_def)
next
  case (Cons c r)
  with assms(1) show ?thesis
    by (auto simp: match_frac_def takeWhile_digit_append [OF assms(2)] split: if_splits)
qed

lemma match_exp_append:
  assumes "match_exp s2 = (x, [])" and "num_end rest"
  shows "match_exp (s2 @ rest) = (x, rest)"
proof (cases s2)
  case Nil
  with assms show ?thesis
    by (cases rest) (auto simp: match_exp_def num_end_def)
next
  case (Cons c r)
  note td = takeWhile_digit_append [OF assms(2)]
  show ?thesis
  proof (cases "c = CHR ''e'' \<or> c = CHR ''E''")
    case False
    with assms(1) Cons show ?thesis by (auto simp: match_exp_def)
  next
    case e: True
    show ?thesis
    proof (cases r)
      case Nil
      with assms(1) Cons e show ?thesis by (auto simp: match_exp_def)
    next
      case (Cons d r')
      show ?thesis
      proof (cases "d = CHR ''-'' \<or> d = CHR ''+''")
        case True
        with assms(1) \<open>s2 = c # r\<close> Cons e show ?thesis
          by (auto simp: match_exp_def td split: if_splits)
      next
        case False
        with assms(1) \<open>s2 = c # r\<close> Cons e show ?thesis
          using td [of "d # r'"]
          by (auto simp: match_exp_def split: if_splits)
      qed
    qed
  qed
qed

lemma match_number_append:
  assumes "match_number r = Some (v, [])" and "num_end rest"
  shows "match_number (r @ rest) = Some (v, rest)"
proof -
  from assms(1) obtain i s1 f s2 x where
    i: "match_int r = Some (i, s1)" and f: "match_frac s1 = (f, s2)" and x: "match_exp s2 = (x, [])"
    and v: "v = (if f \<noteq> [] \<or> x \<noteq> [] then PFloat (Finite (i @ f @ x)) else PInt (int_of_text i))"
    by (auto simp: match_number_def split: option.splits prod.splits if_splits)
  show ?thesis
    using match_int_append [OF i assms(2)] match_frac_append [OF f assms(2)]
      match_exp_append [OF x assms(2)] v
    by (simp add: match_number_def)
qed

section \<open>Values come back\<close>

subsection \<open>White space and first characters\<close>

lemma skip_ws_newline_indent: "skip_ws (newline_indent l @ t) = skip_ws t"
  by (simp add: skip_ws_def newline_indent_def is_ws_def dropWhile_append)

lemma skip_ws_Cons: "\<not> is_ws c \<Longrightarrow> skip_ws (c # t) = c # t"
  by (simp add: skip_ws_def)

lemma skip_ws_space: "skip_ws (CHR '' '' # t) = skip_ws t"
  by (simp add: skip_ws_def is_ws_def)

lemma match_number_start:
  assumes "match_number r = Some (v, s)"
  obtains c r' where "r = c # r'" and "c = CHR ''-'' \<or> is_digit c"
proof -
  from assms obtain i s1 where i: "match_int r = Some (i, s1)"
    by (auto simp: match_number_def split: option.splits)
  then show ?thesis
    by (cases r) (auto simp: match_int_def match_sign_def is_digit_def intro: that split: if_splits list.splits)
qed

lemma number_start: "c = CHR ''-'' \<or> is_digit c \<Longrightarrow> value_start c"
  by (auto simp: value_start_def is_digit_def is_ws_def)

lemma json_text_start:
  assumes "encodable v" and "wf_val v"
  shows "\<exists>c r. json_text v lvl = c # r \<and> value_start c"
proof (cases v)
  case (PInt i)
  from match_number_intstr [of i] obtain c r' where "intstr i = c # r'" "c = CHR ''-'' \<or> is_digit c"
    by (rule match_number_start)
  with PInt show ?thesis by (simp add: number_start)
next
  case (PFloat f)
  show ?thesis
  proof (cases f)
    case (Finite r)
    with assms PFloat have "match_number r = Some (PFloat (Finite r), [])"
      by (simp add: float_repr_ok_def)
    then obtain c r' where "r = c # r'" "c = CHR ''-'' \<or> is_digit c"
      by (rule match_number_start)
    with PFloat Finite show ?thesis by (simp add: number_start)
  qed (simp_all add: PFloat value_start_def is_ws_def)
qed (use assms in \<open>simp_all add: value_start_def is_ws_def py_encode_basestring_ascii_def\<close>)

subsection \<open>Reading one value\<close>

lemma parse_value_string:
  "parse_value a (Suc n) (CHR 0x22 # t) =
     (case scanstring t [] of None \<Rightarrow> None | Some (str, r1) \<Rightarrow> Some (PStr str, r1))"
  by simp

lemma parse_value_encoded_string:
  "valid_str s \<Longrightarrow>
   parse_value a (Suc n) (py_encode_basestring_ascii s @ rest) = Some (PStr (join_surrogates s), rest)"
  unfolding py_encode_basestring_ascii_def valid_str_def
  by (simp add: scanstring_escaped del: parse_value.simps add: parse_value_string)

lemma parse_value_other:
  assumes "c = CHR ''-'' \<or> is_digit c"
  shows "parse_value a (Suc n) (c # t) =
     (case match_number (c # t) of
        Some res \<Rightarrow> Some res
      | None \<Rightarrow>
          if \<not> a then None
          else if take 3 (c # t) = ''NaN'' then Some (PFloat NaN, drop 3 (c # t))
          else if take 8 (c # t) = ''Infinity'' then Some (PFloat PosInf, drop 8 (c # t))
          else if take 9 (c # t) = ''-Infinity'' then Some (PFloat NegInf, drop 9 (c # t))
          else None)"
proof -
  have "c \<noteq> CHR 0x22" "c \<noteq> CHR ''{''" "c \<noteq> CHR ''[''" "c \<noteq> CHR ''n''" "c \<noteq> CHR ''t''" "c \<noteq> CHR ''f''"
    using assms by (auto simp: is_digit_def)
  then show ?thesis by simp
qed

lemma parse_value_number:
  assumes "match_number r = Some (v, [])" and "num_end rest"
  shows "parse_value a (Suc n) (r @ rest) = Some (v, rest)"
proof -
  from assms(1) obtain c r' where r: "r = c # r'" and c: "c = CHR ''-'' \<or> is_digit c"
    by (rule match_number_start)
  have "match_number (c # r' @ rest) = Some (v, rest)"
    using match_number_append [OF assms] r by simp
  then show ?thesis
    unfolding r append_Cons parse_value_other [OF c] by simp
qed

lemma parse_value_array:
  assumes "value_start d"
  shows "parse_value a (Suc n) (CHR ''['' # newline_indent l @ d # t) = parse_array a n (d # t) []"
  using assms by (simp add: skip_ws_newline_indent skip_ws_Cons value_start_def)

lemma parse_value_object:
  shows "parse_value a (Suc n) (CHR ''{'' # newline_indent l @ CHR 0x22 # t) = parse_object a n (CHR 0x22 # t) []"
  by (simp add: skip_ws_newline_indent skip_ws_Cons is_ws_def)

lemma num_end_simps: "num_end (CHR '','' # t)" "num_end (newline_indent l @ t)" "num_end []"
  by (simp_all add: num_end_def is_digit_def newline_indent_def)

lemma parse_array_more:
  assumes "parse_value a n s = Some (v, CHR '','' # newline_indent l @ t)"
  shows "parse_array a (Suc n) s acc = parse_array a n (skip_ws t) (acc @ [v])"
  using assms by (simp add: skip_ws_Cons is_ws_def skip_ws_newline_indent)

lemma parse_array_last:
  assumes "parse_value a n s = Some (v, newline_indent l @ CHR '']'' # rest)"
  shows "parse_array a (Suc n) s acc = Some (PList (acc @ [v]), rest)"
  using assms by (simp add: skip_ws_Cons is_ws_def skip_ws_newline_indent)

lemma parse_object_more:
  assumes "scanstring t [] = Some (key, CHR '':'' # CHR '' '' # s)"
    and "parse_value a n (skip_ws s) = Some (v, CHR '','' # newline_indent l @ t')"
  shows "parse_object a (Suc n) (CHR 0x22 # t) acc =
    parse_object a n (skip_ws t') (dict_set (KStr key) v acc)"
  using assms by (simp add: skip_ws_Cons is_ws_def skip_ws_newline_indent skip_ws_space)

lemma parse_object_last:
  assumes "scanstring t [] = Some (key, CHR '':'' # CHR '' '' # s)"
    and "parse_value a n (skip_ws s) = Some (v, newline_indent l @ CHR ''}'' # rest)"
  shows "parse_object a (Suc n) (CHR 0x22 # t) acc = Some (PDict (dict_set (KStr key) v acc), rest)"
  using assms by (simp add: skip_ws_Cons is_ws_def skip_ws_newline_indent skip_ws_space)

lemma skip_ws_json_text:
  assumes "encodable v" and "wf_val v"
  shows "skip_ws (json_text v lvl @ t) = json_text v lvl @ t"
proof -
  from json_text_start [OF assms, of lvl] obtain c r where "json_text v lvl = c # r" "value_start c"
    by blast
  then show ?thesis by (simp add: skip_ws_Cons value_start_def)
qed

lemma items_text_start:
  assumes "encodable v" and "wf_val v"
  shows "\<exists>d t. items_text (v # vs) lvl = d # t \<and> value_start d"
proof -
  from json_text_start [OF assms, of lvl] obtain c r where "json_text v lvl = c # r" "value_start c"
    by blast
  then show ?thesis by simp
qed

lemma valid_str_str_of: "valid_str (str_of s)"
proof -
  have "(of_char c :: nat) < 1114112" for c
    using nat_of_char_less_256 [of c] by linarith
  then show ?thesis by (simp add: valid_str_def str_of_def)
qed

lemma valid_key_text: "wf_key k \<Longrightarrow> valid_str (key_text k)"
  by (cases k) (simp_all add: key_text_def valid_str_str_of, simp add: valid_str_def)

lemma length_newline_indent: "length (newline_indent l) = Suc (4 * l)"
  by (simp add: newline_indent_def)

lemma parse_value_null:
  "parse_value a (Suc n) (''null'' @ rest) = Some (PNone, rest)"
  "parse_value a (Suc n) (''true'' @ rest) = Some (PBool True, rest)"
  "parse_value a (Suc n) (''false'' @ rest) = Some (PBool False, rest)"
  by simp_all

lemma parse_value_nan:
  "parse_value True (Suc n) (''NaN'' @ rest) = Some (PFloat NaN, rest)"
  "parse_value True (Suc n) (''Infinity'' @ rest) = Some (PFloat PosInf, rest)"
  "parse_value True (Suc n) (''-Infinity'' @ rest) = Some (PFloat NegInf, rest)"
  by (simp_all add: match_number_def match_int_def match_sign_def is_digit_def)

lemma parse_value_empty:
  "parse_value a (Suc n) (''[]'' @ rest) = Some (PList [], rest)"
  "parse_value a (Suc n) (''{}'' @ rest) = Some (PDict [], rest)"
  by (simp_all add: skip_ws_Cons is_ws_def)

lemma parse_value_scalar:
  assumes "scalar_text v = Some t" and "wf_val v" and "\<not> a \<Longrightarrow> finite_floats v" and "num_end rest"
  shows "parse_value a (Suc n) (t @ rest) = Some (jnorm v, rest)"
proof (cases v)
  case (PStr s)
  with assms show ?thesis by (auto simp: parse_value_encoded_string simp del: parse_value.simps)
next
  case (PInt i)
  with assms show ?thesis
    using parse_value_number [OF match_number_intstr assms(4)] by (auto simp del: parse_value.simps)
next
  case (PFloat f)
  show ?thesis
  proof (cases f)
    case (Finite r)
    with assms PFloat have "match_number r = Some (PFloat (Finite r), [])"
      by (simp add: float_repr_ok_def)
    from parse_value_number [OF this assms(4)] show ?thesis
      using assms(1) PFloat Finite by (auto simp del: parse_value.simps)
  next
    case NaN
    with assms PFloat have a by auto
    with assms(1) PFloat NaN show ?thesis
      using parse_value_nan(1) [of n rest] by (auto simp del: parse_value.simps)
  next
    case PosInf
    with assms PFloat have a by auto
    with assms(1) PFloat PosInf show ?thesis
      using parse_value_nan(2) [of n rest] by (auto simp del: parse_value.simps)
  next
    case NegInf
    with assms PFloat have a by auto
    with assms(1) PFloat NegInf show ?thesis
      using parse_value_nan(3) [of n rest] by (auto simp del: parse_value.simps)
  qed
qed (use assms(1) parse_value_null [of a n rest] in \<open>auto simp del: parse_value.simps\<close>)

lemma parse_value_items:
  assumes "parse_array a m (items_text (v # vs) (Suc lvl) @ newline_indent lvl @ CHR '']'' # rest) [] = Some r"
    and "encodable v" and "wf_val v"
  shows "parse_value a (Suc m)
      ((''['' @ newline_indent (Suc lvl) @ items_text (v # vs) (Suc lvl) @ newline_indent lvl @ '']'') @ rest) = Some r"
proof -
  from items_text_start [OF assms(2,3), of vs "Suc lvl"] obtain d t where
    dt: "items_text (v # vs) (Suc lvl) = d # t" "value_start d"
    by blast
  show ?thesis
    using assms(1) parse_value_array [OF dt(2), of a m "Suc lvl" "t @ newline_indent lvl @ CHR '']'' # rest"]
    unfolding dt(1) by (simp del: parse_value.simps parse_array.simps)
qed

lemma parse_value_members:
  assumes "parse_object a m (members_text ((k, v) # kvs) (Suc lvl) @ newline_indent lvl @ CHR ''}'' # rest) [] = Some r"
  shows "parse_value a (Suc m)
      ((''{'' @ newline_indent (Suc lvl) @ members_text ((k, v) # kvs) (Suc lvl) @ newline_indent lvl @ ''}'') @ rest) = Some r"
proof -
  obtain t where t: "members_text ((k, v) # kvs) (Suc lvl) = CHR 0x22 # t"
    by (simp add: py_encode_basestring_ascii_def)
  show ?thesis
    using assms parse_value_object [of a m "Suc lvl" "t @ newline_indent lvl @ CHR ''}'' # rest"]
    unfolding t by (simp del: parse_value.simps parse_object.simps)
qed

lemma scan_key:
  assumes "valid_str ks"
  shows "\<exists>t. py_encode_basestring_ascii ks @ '': '' @ s = CHR 0x22 # t \<and>
     scanstring t [] = Some (join_surrogates ks, CHR '':'' # CHR '' '' # s)"
  using assms scanstring_escaped [of ks "CHR '':'' # CHR '' '' # s" "[]"]
  by (simp add: py_encode_basestring_ascii_def valid_str_def)

lemma parse_roundtrip:
  fixes a :: bool
  shows "encodable v \<Longrightarrow> wf_val v \<Longrightarrow> (\<not> a \<longrightarrow> finite_floats v) \<Longrightarrow> num_end rest \<Longrightarrow>
      length (json_text v lvl) \<le> n \<Longrightarrow>
      parse_value a n (json_text v lvl @ rest) = Some (jnorm v, rest)"
    and "\<forall>v \<in> set vs. encodable v \<and> wf_val v \<and> (\<not> a \<longrightarrow> finite_floats v) \<Longrightarrow> vs \<noteq> [] \<Longrightarrow>
      length (items_text vs lvl) < n \<Longrightarrow>
      parse_array a n (items_text vs lvl @ newline_indent l' @ CHR '']'' # rest) acc =
        Some (PList (acc @ map jnorm vs), rest)"
    and "\<forall>(k, v) \<in> set kvs. key_encodable k \<and> wf_key k \<and> encodable v \<and> wf_val v \<and> (\<not> a \<longrightarrow> finite_floats v) \<Longrightarrow>
      kvs \<noteq> [] \<Longrightarrow> length (members_text kvs lvl) < n \<Longrightarrow>
      parse_object a n (members_text kvs lvl @ newline_indent l' @ CHR ''}'' # rest) dacc =
        Some (PDict (foldl (\<lambda>d (k, v). dict_set k v d) dacc
                (map (\<lambda>(k, v). (KStr (join_surrogates (key_text k)), jnorm v)) kvs)), rest)"
proof (induction v lvl and vs lvl and kvs lvl arbitrary: n rest and n rest acc l' and n rest dacc l'
    rule: json_text_items_text_members_text.induct)
  case (1 s lvl)
  then obtain m where "n = Suc m" by (cases n) (auto simp: py_encode_basestring_ascii_def)
  with 1 show ?case using parse_value_scalar [of "PStr s" _ a rest m] by simp
next
  case (2 lvl)
  then obtain m where "n = Suc m" by (cases n) auto
  with 2 show ?case using parse_value_scalar [of "PNone" _ a rest m] by simp
next
  case (3 b lvl)
  then obtain m where "n = Suc m" by (cases n) (auto split: if_splits)
  with 3 show ?case using parse_value_scalar [of "PBool b" _ a rest m] by simp
next
  case (4 i lvl)
  from match_number_intstr [of i] obtain c r' where "intstr i = c # r'"
    by (rule match_number_start)
  with 4 obtain m where "n = Suc m" by (cases n) auto
  with 4 show ?case using parse_value_scalar [of "PInt i" _ a rest m] by simp
next
  case (5 f lvl)
  from json_text_start [OF "5.prems"(1,2), of lvl] "5.prems"(5)
  obtain m where "n = Suc m" by (cases n) auto
  with 5 show ?case using parse_value_scalar [of "PFloat f" _ a rest m] by simp
next
  case (6 lst lvl)
  show ?case
  proof (cases lst)
    case Nil
    with 6 obtain m where "n = Suc m" by (cases n) auto
    with Nil show ?thesis using parse_value_empty(1) [of a m rest] by simp
  next
    case (Cons v vs)
    with "6.prems" obtain m where m: "n = Suc m" and len: "length (items_text lst (Suc lvl)) < m"
      by (cases n) (auto simp: length_newline_indent)
    have "parse_array a m (items_text lst (Suc lvl) @ newline_indent lvl @ CHR '']'' # rest) [] =
        Some (PList ([] @ map jnorm lst), rest)"
      using "6.prems"(1,2,3) Cons len by (intro "6.IH") auto
    then show ?thesis
      using parse_value_items [of a m v vs lvl rest] "6.prems"(1,2) Cons m
      by (simp del: parse_value.simps parse_array.simps)
  qed
next
  case (7 lst lvl)
  show ?case
  proof (cases lst)
    case Nil
    with 7 obtain m where "n = Suc m" by (cases n) auto
    with Nil show ?thesis using parse_value_empty(1) [of a m rest] by simp
  next
    case (Cons v vs)
    with "7.prems" obtain m where m: "n = Suc m" and len: "length (items_text lst (Suc lvl)) < m"
      by (cases n) (auto simp: length_newline_indent)
    have "parse_array a m (items_text lst (Suc lvl) @ newline_indent lvl @ CHR '']'' # rest) [] =
        Some (PList ([] @ map jnorm lst), rest)"
      using "7.prems"(1,2,3) Cons len by (intro "7.IH") auto
    then show ?thesis
      using parse_value_items [of a m v vs lvl rest] "7.prems"(1,2) Cons m
      by (simp del: parse_value.simps parse_array.simps)
  qed
next
  case (8 dct lvl)
  show ?case
  proof (cases dct)
    case Nil
    with 8 obtain m where "n = Suc m" by (cases n) auto
    with Nil show ?thesis using parse_value_empty(2) [of a m rest] by (simp add: dict_of_def)
  next
    case (Cons kv kvs)
    obtain k v where kv: "kv = (k, v)" by (cases kv)
    from Cons "8.prems" obtain m where m: "n = Suc m" and len: "length (members_text dct (Suc lvl)) < m"
      by (cases n) (auto simp: length_newline_indent)
    have "parse_object a m (members_text dct (Suc lvl) @ newline_indent lvl @ CHR ''}'' # rest) [] =
        Some (PDict (foldl (\<lambda>d (k, v). dict_set k v d) []
                (map (\<lambda>(k, v). (KStr (join_surrogates (key_text k)), jnorm v)) dct)), rest)"
      using "8.prems"(1,2,3) Cons len by (intro "8.IH") auto
    then show ?thesis
      using parse_value_members [of a m k v kvs lvl rest] Cons kv m
      by (simp add: dict_of_def del: parse_value.simps parse_object.simps)
  qed
next
  case (9 cls lvl)
  then show ?case by simp
next
  case (10 lvl)
  then show ?case by simp
next
  case (11 v vs lvl)
  from "11.prems" obtain m where m: "n = Suc m" by (cases n) auto
  from "11.prems"(1) have v: "encodable v" "wf_val v" "\<not> a \<longrightarrow> finite_floats v"
    and vs: "\<forall>v \<in> set vs. encodable v \<and> wf_val v \<and> (\<not> a \<longrightarrow> finite_floats v)"
    by simp_all
  show ?case
  proof (cases vs)
    case Nil
    have "parse_value a m (json_text v lvl @ newline_indent l' @ CHR '']'' # rest) =
        Some (jnorm v, newline_indent l' @ CHR '']'' # rest)"
      using v "11.prems"(3) m Nil by (intro "11.IH"(1)) (simp_all add: num_end_simps)
    from parse_array_last [OF this, of acc] show ?thesis
      using m Nil by (simp del: parse_value.simps parse_array.simps)
  next
    case (Cons v' vs')
    let ?T = "items_text vs lvl @ newline_indent l' @ CHR '']'' # rest"
    have "parse_value a m (json_text v lvl @ CHR '','' # newline_indent lvl @ ?T) =
        Some (jnorm v, CHR '','' # newline_indent lvl @ ?T)"
      using v "11.prems"(3) m Cons by (intro "11.IH"(1)) (simp_all add: num_end_simps)
    from parse_array_more [OF this, of acc]
    have step: "parse_array a (Suc m) (json_text v lvl @ CHR '','' # newline_indent lvl @ ?T) acc =
        parse_array a m (skip_ws ?T) (acc @ [jnorm v])" .
    from vs Cons items_text_start [of v' vs' lvl] obtain d t where
      dt: "items_text vs lvl = d # t" "value_start d"
      by auto
    have sk: "skip_ws ?T = ?T"
      using dt by (simp add: skip_ws_Cons value_start_def)
    have "parse_array a m ?T (acc @ [jnorm v]) = Some (PList ((acc @ [jnorm v]) @ map jnorm vs), rest)"
      using vs "11.prems"(3) m Cons by (intro "11.IH"(2)) (simp_all add: length_newline_indent)
    with step sk show ?thesis
      using m Cons by (simp del: parse_value.simps parse_array.simps)
  qed
next
  case (12 lvl)
  then show ?case by simp
next
  case (13 k v kvs lvl)
  from "13.prems" obtain m where m: "n = Suc m" by (cases n) auto
  from "13.prems"(1) have k: "wf_key k" and v: "encodable v" "wf_val v" "\<not> a \<longrightarrow> finite_floats v"
    and kvs: "\<forall>(k, v) \<in> set kvs. key_encodable k \<and> wf_key k \<and> encodable v \<and> wf_val v \<and> (\<not> a \<longrightarrow> finite_floats v)"
    by simp_all
  let ?key = "join_surrogates (key_text k)"
  show ?case
  proof (cases kvs)
    case Nil
    let ?s = "json_text v lvl @ newline_indent l' @ CHR ''}'' # rest"
    from scan_key [OF valid_key_text [OF k], of ?s] obtain t where
      t: "py_encode_basestring_ascii (key_text k) @ '': '' @ ?s = CHR 0x22 # t"
        "scanstring t [] = Some (?key, CHR '':'' # CHR '' '' # ?s)"
      by blast
    have "parse_value a m ?s = Some (jnorm v, newline_indent l' @ CHR ''}'' # rest)"
      using v "13.prems"(3) m Nil by (intro "13.IH"(1)) (simp_all add: num_end_simps)
    then have "parse_value a m (skip_ws ?s) = Some (jnorm v, newline_indent l' @ CHR ''}'' # rest)"
      by (simp only: skip_ws_json_text [OF v(1,2)])
    from parse_object_last [OF t(2) this, of dacc] show ?thesis
      using m Nil t(1) by (simp del: parse_value.simps parse_object.simps)
  next
    case (Cons kv' kvs')
    obtain k' v' where kv': "kv' = (k', v')" by (cases kv')
    let ?T = "members_text kvs lvl @ newline_indent l' @ CHR ''}'' # rest"
    let ?s = "json_text v lvl @ CHR '','' # newline_indent lvl @ ?T"
    from scan_key [OF valid_key_text [OF k], of ?s] obtain t where
      t: "py_encode_basestring_ascii (key_text k) @ '': '' @ ?s = CHR 0x22 # t"
        "scanstring t [] = Some (?key, CHR '':'' # CHR '' '' # ?s)"
      by blast
    have "parse_value a m ?s = Some (jnorm v, CHR '','' # newline_indent lvl @ ?T)"
      using v "13.prems"(3) m Cons by (intro "13.IH"(1)) (simp_all add: num_end_simps)
    then have "parse_value a m (skip_ws ?s) = Some (jnorm v, CHR '','' # newline_indent lvl @ ?T)"
      by (simp only: skip_ws_json_text [OF v(1,2)])
    from parse_object_more [OF t(2) this, of dacc]
    have step: "parse_object a (Suc m) (CHR 0x22 # t) dacc =
        parse_object a m (skip_ws ?T) (dict_set (KStr ?key) (jnorm v) dacc)" .
    have sk: "skip_ws ?T = ?T"
      using Cons kv' by (simp add: skip_ws_Cons is_ws_def py_encode_basestring_ascii_def)
    have "parse_object a m ?T (dict_set (KStr ?key) (jnorm v) dacc) =
        Some (PDict (foldl (\<lambda>d (k, v). dict_set k v d) (dict_set (KStr ?key) (jnorm v) dacc)
                (map (\<lambda>(k, v). (KStr (join_surrogates (key_text k)), jnorm v)) kvs)), rest)"
      using kvs "13.prems"(3) m Cons by (intro "13.IH"(2)) (simp_all add: length_newline_indent)
    with step sk show ?thesis
      using m Cons t(1) by (simp del: parse_value.simps parse_object.simps)
  qed
qed

section \<open>The file read back\<close>

lemma json_loads_json_text:
  assumes "encodable v" and "wf_val v" and "\<not> a \<longrightarrow> finite_floats v"
  shows "json_loads a (json_text v 0) = Some (jnorm v)"
proof -
  have "parse_value a (length (json_text v 0)) (json_text v 0 @ []) = Some (jnorm v, [])"
    using assms by (intro parse_roundtrip(1)) (simp_all add: num_end_simps)
  moreover have "skip_ws (json_text v 0) = json_text v 0"
    using skip_ws_json_text [OF assms(1,2), of 0 "[]"] by simp
  ultimately show ?thesis
    by (simp add: json_loads_def skip_ws_def)
qed

lemma unicode_text_join: "unicode_text s \<Longrightarrow> join_surrogates s = s"
  by (induction s rule: join_surrogates.induct) (auto simp: unicode_text_def)

lemma unicode_text_valid: "unicode_text s \<Longrightarrow> valid_str s"
  by (auto simp: unicode_text_def valid_str_def)

lemma foldl_dict_set_distinct:
  "distinct (map fst (acc @ ps)) \<Longrightarrow> foldl (\<lambda>d (k, v). dict_set k v d) acc ps = acc @ ps"
proof (induction ps arbitrary: acc)
  case Nil
  then show ?case by simp
next
  case (Cons p ps)
  obtain k v where p: "p = (k, v)" by (cases p)
  have "dict_set k v acc = acc @ [(k, v)]"
    using Cons.prems p by (induction acc) auto
  moreover have "distinct (map fst ((acc @ [(k, v)]) @ ps))"
    using Cons.prems p by simp
  ultimately show ?case
    using Cons.IH [of "acc @ [(k, v)]"] p by simp
qed

lemma dict_of_distinct: "distinct (map fst ps) \<Longrightarrow> dict_of ps = ps"
  using foldl_dict_set_distinct [of "[]" ps] by (simp add: dict_of_def)

lemma representable_props:
  "json_representable v \<Longrightarrow> encodable v \<and> wf_val v \<and> finite_floats v \<and> jnorm v = v"
proof (induction v rule: jnorm.induct)
  case (1 s)
  then show ?case by (simp add: unicode_text_join unicode_text_valid)
next
  case (2 lst)
  then show ?case by (simp add: map_idI)
next
  case (3 lst)
  then show ?case by simp
next
  case (4 dct)
  have keys: "\<And>k v. (k, v) \<in> set dct \<Longrightarrow> \<exists>s. k = KStr s \<and> unicode_text s"
  proof -
    fix k v assume "(k, v) \<in> set dct"
    with "4.prems" have "representable_key k" by auto
    then show "\<exists>s. k = KStr s \<and> unicode_text s" by (cases k) simp_all
  qed
  have vals: "\<And>k v. (k, v) \<in> set dct \<Longrightarrow> encodable v \<and> wf_val v \<and> finite_floats v \<and> jnorm v = v"
    using "4.IH" "4.prems" by auto
  have "map (\<lambda>(k, v). (KStr (join_surrogates (key_text k)), jnorm v)) dct = dct"
  proof (rule map_idI)
    fix p assume p: "p \<in> set dct"
    obtain k v where kv: "p = (k, v)" by (cases p)
    from keys [of k v] vals [of k v] p kv show "(case p of (k, v) \<Rightarrow> (KStr (join_surrogates (key_text k)), jnorm v)) = p"
      by (auto simp: key_text_def unicode_text_join)
  qed
  moreover have "distinct (map fst dct)" using "4.prems" by simp
  ultimately have "jnorm (PDict dct) = PDict dct"
    by (simp add: dict_of_distinct)
  moreover have "encodable (PDict dct) \<and> wf_val (PDict dct) \<and> finite_floats (PDict dct)"
    using keys vals by (fastforce simp: unicode_text_valid)
  ultimately show ?case by simp
qed simp_all

lemma json_roundtrip:
  assumes "json_representable v"
  shows "snd (iterencode v 0) = None"
    and "json_loads False (concat (fst (iterencode v 0))) = Some v"
proof -
  from representable_props [OF assms] have p: "encodable v" "wf_val v" "\<not> False \<longrightarrow> finite_floats v" "jnorm v = v"
    by simp_all
  show "snd (iterencode v 0) = None"
    using iterencode_ok(1) [OF p(1), of 0] by simp
  show "json_loads False (concat (fst (iterencode v 0))) = Some v"
    using iterencode_ok(1) [OF p(1), of 0] json_loads_json_text [OF p(1,2,3)] p(4) by simp
qed

section \<open>The document is ASCII\<close>

lemma ascii_text_simps [simp]:
  "ascii_text []" "ascii_text (c # s) = ((of_char c :: nat) < 128 \<and> ascii_text s)"
  "ascii_text (s @ t) = (ascii_text s \<and> ascii_text t)"
  by (auto simp: ascii_text_def)

lemma ascii_hex_char: "(of_char (hex_char (d mod 16)) :: nat) < 128"
proof -
  have "d mod 16 < 16" by simp
  then have "87 + d mod 16 < 128" by linarith
  then show ?thesis
    unfolding hex_char_def by (auto simp: mod_less)
qed

lemma ascii_u_escape: "ascii_text (u_escape n)"
  by (simp add: u_escape_def ascii_hex_char)

lemma ascii_escape_char: "ascii_text (escape_char c)"
  by (simp add: escape_char_def ascii_u_escape)

lemma ascii_concat: "(\<And>x. x \<in> set xs \<Longrightarrow> ascii_text x) \<Longrightarrow> ascii_text (concat xs)"
  by (induction xs) simp_all

lemma ascii_encoder: "ascii_text (py_encode_basestring_ascii s)"
  by (auto simp: py_encode_basestring_ascii_def ascii_escape_char intro!: ascii_concat)

lemma ascii_digits: "\<forall>c \<in> set ds. is_digit c \<Longrightarrow> ascii_text ds"
  by (auto simp: ascii_text_def is_digit_def)

lemma ascii_intstr: "ascii_text (intstr i)"
  by (simp add: intstr_def ascii_digits nat_digits_digits)

lemma ascii_takeWhile_digit: "ascii_text (takeWhile is_digit s)"
  by (rule ascii_digits) (auto dest: set_takeWhileD)

lemma ascii_match_int: "match_int r = Some (i, s1) \<Longrightarrow> ascii_text i"
  by (auto simp: match_int_def match_sign_def ascii_takeWhile_digit is_digit_def
      split: list.splits if_splits)

lemma ascii_match_frac: "match_frac s = (f, s2) \<Longrightarrow> ascii_text f"
  by (auto simp: match_frac_def ascii_takeWhile_digit split: list.splits if_splits)

lemma ascii_match_exp: "match_exp s = (x, s3) \<Longrightarrow> ascii_text x"
  by (auto simp: match_exp_def ascii_takeWhile_digit is_digit_def split: list.splits if_splits)

lemma ascii_float: "wf_float f \<Longrightarrow> ascii_text (floatstr f)"
proof (cases f)
  case (Finite r)
  assume "wf_float f"
  with Finite have "match_number r = Some (PFloat (Finite r), [])"
    by (simp add: float_repr_ok_def)
  then obtain i s1 fr s2 x s3 where "match_int r = Some (i, s1)" "match_frac s1 = (fr, s2)"
    "match_exp s2 = (x, s3)" "r = i @ fr @ x"
    by (auto simp: match_number_def split: option.splits prod.splits if_splits)
  then show ?thesis
    using Finite ascii_match_int ascii_match_frac ascii_match_exp by simp
qed simp_all

lemma ascii_newline_indent: "ascii_text (newline_indent l)"
  by (simp add: newline_indent_def ascii_text_def)

lemma ascii_json_text:
  "encodable v \<Longrightarrow> wf_val v \<Longrightarrow> ascii_text (json_text v lvl)"
  "\<forall>v \<in> set vs. encodable v \<and> wf_val v \<Longrightarrow> ascii_text (items_text vs lvl)"
  "\<forall>(k, v) \<in> set kvs. encodable v \<and> wf_val v \<Longrightarrow> ascii_text (members_text kvs lvl)"
  by (induction v lvl and vs lvl and kvs lvl rule: json_text_items_text_members_text.induct)
    (auto simp: ascii_encoder ascii_intstr ascii_float ascii_newline_indent)

section \<open>Runs of the script\<close>

lemma json_dump_result:
  assumes "json_dump v b = (t, r)"
  shows "r = None \<Longrightarrow> encodable v \<and> t = json_text v 0"
    and "r = Some (SerializationError m) \<Longrightarrow> \<not> encodable v \<and> t = concat (fst (iterencode v 0))"
    and "r = Some FilesystemError \<Longrightarrow>
      \<exists>n. b = Some n \<and> n < length (concat (fst (iterencode v 0)))
        \<and> t = take n (concat (fst (iterencode v 0)))"
    and "r = None \<or> r = Some FilesystemError \<or> (\<exists>m'. r = Some (SerializationError m'))"
proof -
  obtain cs x where it: "iterencode v 0 = (cs, x)" by (cases "iterencode v 0")
  have enc: "x = None \<Longrightarrow> encodable v \<and> concat cs = json_text v 0"
    using iterencode_fails(1) [of v 0] iterencode_ok(1) [of v 0] it by auto
  have nenc: "x \<noteq> None \<Longrightarrow> \<not> encodable v"
    using iterencode_ok(1) [of v 0] it by auto
  have ser: "x = Some y \<Longrightarrow> \<exists>m'. y = SerializationError m'" for y
    using iterencode_exn(1) [of v 0 y] it by simp
  show "r = None \<Longrightarrow> encodable v \<and> t = json_text v 0"
    using assms it enc by (auto simp: json_dump_def split: option.splits if_splits)
  show "r = Some (SerializationError m) \<Longrightarrow> \<not> encodable v \<and> t = concat (fst (iterencode v 0))"
    using assms it nenc by (auto simp: json_dump_def split: option.splits if_splits)
  show "r = Some FilesystemError \<Longrightarrow>
      \<exists>n. b = Some n \<and> n < length (concat (fst (iterencode v 0)))
        \<and> t = take n (concat (fst (iterencode v 0)))"
    using assms it ser [of FilesystemError]
    by (auto simp: json_dump_def split: option.splits if_splits)
  show "r = None \<or> r = Some FilesystemError \<or> (\<exists>m'. r = Some (SerializationError m'))"
    using assms it ser by (cases r) (auto simp: json_dump_def split: option.splits if_splits)
qed

lemma json_dump_encodable: "encodable v \<Longrightarrow> json_dump v None = (json_text v 0, None)"
  using iterencode_ok(1) [of v 0] by (cases "iterencode v 0") (simp add: json_dump_def)

lemma json_dump_not_encodable:
  "\<not> encodable v \<Longrightarrow> \<exists>m. snd (json_dump v None) = Some (SerializationError m)"
  using iterencode_fails(1) [of v 0] iterencode_exn(1) [of v 0]
  by (cases "iterencode v 0") (auto simp: json_dump_def)

lemma json_dump_fails: "\<not> encodable v \<Longrightarrow> snd (json_dump v b) \<noteq> None"
  using iterencode_fails(1) [of v 0]
  by (cases "iterencode v 0") (auto simp: json_dump_def split: option.splits)

lemma build_data_exn: "build_data e = Inl x \<Longrightarrow> \<exists>m. x = StoreUnavailable m"
proof -
  have "accumulate get ks d = Inl x \<Longrightarrow> \<exists>m. x = StoreUnavailable m" for get ks d
    by (induction ks arbitrary: d) (auto split: sum.splits)
  then show "build_data e = Inl x \<Longrightarrow> \<exists>m. x = StoreUnavailable m"
    by (auto simp: build_data_def split: sum.splits)
qed

lemma export_db_cases:
  assumes "export_db e w = (r, w')"
  obtains (store) m where "build_data e = Inl (StoreUnavailable m)" "r = Some (StoreUnavailable m)" "w' = w"
    | (closed) data where "build_data e = Inr data" "\<not> can_open e" "r = Some FilesystemError" "w' = w"
    | (opened) data t where "build_data e = Inr data" "can_open e"
        "json_dump (PDict data) (write_budget e) = (t, r)"
        "files w' = (files w)(backup_path \<mapsto> t)"
        "stdout w' = (if r = None then stdout w @ [notice] else stdout w)"
proof (cases "build_data e")
  case (Inl x)
  with build_data_exn [OF Inl] assms show ?thesis
    by (auto simp: export_db_def intro: store)
next
  case (Inr data)
  show ?thesis
  proof (cases "can_open e")
    case False
    with Inr assms show ?thesis by (auto simp: export_db_def intro: closed)
  next
    case True
    obtain t x where d: "json_dump (PDict data) (write_budget e) = (t, x)"
      by (cases "json_dump (PDict data) (write_budget e)")
    with Inr True assms show ?thesis
      by (intro opened [of data t]) (auto simp: export_db_def split: option.splits)
  qed
qed

lemma export_db_success:
  assumes "build_data e = Inr data" and "can_open e" and "write_budget e = None" and "encodable (PDict data)"
  shows "export_db e w =
    (None, w\<lparr>files := (files w)(backup_path \<mapsto> json_text (PDict data) 0), stdout := stdout w @ [notice]\<rparr>)"
  using assms json_dump_encodable [OF assms(4)] by (simp add: export_db_def)

lemma build_data_keys:
  assumes "db_keys e = Inr ks" and "build_data e = Inr data"
  shows "map fst data = map KStr (rev (remdups (rev ks)))"
    and "distinct (map fst data)"
    and "set (map fst data) = KStr ` set ks"
proof -
  from assms have acc: "accumulate (db_get e) ks [] = Inr data"
    by (simp add: build_data_def)
  show "map fst data = map KStr (rev (remdups (rev ks)))"
    using accumulate_keys [OF acc] by simp
  show "distinct (map fst data)"
    using accumulate_distinct [OF acc] by simp
  show "set (map fst data) = KStr ` set ks"
    using accumulate_key_set [OF acc] by simp
qed

lemma build_data_lookup:
  assumes "db_keys e = Inr ks" and "build_data e = Inr data" and "s \<in> set ks"
  shows "\<exists>v. db_get e s = Inr v \<and> map_of data (KStr s) = Some v"
proof -
  from assms have acc: "accumulate (db_get e) ks [] = Inr data"
    by (simp add: build_data_def)
  obtain v where v: "db_get e s = Inr v"
    using accumulate_fails [of s ks "db_get e" _ "[]"] assms(3) acc
    by (cases "db_get e s") auto
  with accumulate_map_of [OF acc] assms(3) show ?thesis by simp
qed

lemma build_data_values:
  assumes "db_keys e = Inr ks" and "build_data e = Inr data" and "(k, v) \<in> set data"
  shows "\<exists>s \<in> set ks. k = KStr s \<and> db_get e s = Inr v"
proof -
  have "k \<in> set (map fst data)" using assms(3) by force
  with build_data_keys(3) [OF assms(1,2)] obtain s where s: "s \<in> set ks" "k = KStr s"
    by auto
  from build_data_lookup [OF assms(1,2) s(1)] obtain v' where
    v': "db_get e s = Inr v'" "map_of data (KStr s) = Some v'"
    by blast
  have "map_of data k = Some v"
    using build_data_keys(2) [OF assms(1,2)] assms(3) by simp
  with v' s show ?thesis by auto
qed

lemma build_data_succeeds:
  assumes "db_keys e = Inr ks" and "\<forall>k \<in> set ks. \<exists>v. db_get e k = Inr v"
  shows "\<exists>data. build_data e = Inr data"
  using assms accumulate_succeeds [of ks "db_get e" "[]"] by (simp add: build_data_def)

lemma loads_data:
  assumes "distinct (map fst data)"
    and "\<forall>(k, v) \<in> set data. (\<exists>s. k = KStr s \<and> unicode_text s) \<and> encodable v \<and> wf_val v \<and> (\<not> a \<longrightarrow> finite_floats v)"
  shows "json_loads a (json_text (PDict data) 0) = Some (PDict (map (\<lambda>(k, v). (k, jnorm v)) data))"
proof -
  have m: "map (\<lambda>(k, v). (KStr (join_surrogates (key_text k)), jnorm v)) data = map (\<lambda>(k, v). (k, jnorm v)) data"
    using assms(2) by (intro map_cong) (auto simp: key_text_def unicode_text_join)
  have "map fst (map (\<lambda>(k, v). (k, jnorm v)) data) = map fst data"
    by (induction data) auto
  with assms(1) have "distinct (map fst (map (\<lambda>(k, v). (k, jnorm v)) data))"
    by (simp only:)
  then have d: "dict_of (map (\<lambda>(k, v). (k, jnorm v)) data) = map (\<lambda>(k, v). (k, jnorm v)) data"
    by (rule dict_of_distinct)
  have j: "jnorm (PDict data) = PDict (map (\<lambda>(k, v). (k, jnorm v)) data)"
    by (simp only: jnorm.simps m d)
  have "encodable (PDict data)" "wf_val (PDict data)" "\<not> a \<longrightarrow> finite_floats (PDict data)"
    using assms(2) by (fastforce simp: unicode_text_valid)+
  from json_loads_json_text [OF this] j show ?thesis by simp
qed

section \<open>The exported mapping and the file\<close>

lemma first_occ_distinct: "distinct ks \<Longrightarrow> rev (remdups (rev ks)) = ks"
  by (simp add: distinct_remdups_id)

lemma data_items_wf:
  assumes "db_keys e = Inr ks" and "build_data e = Inr data"
    and "\<forall>k \<in> set ks. K k \<and> (case db_get e k of Inl m \<Rightarrow> True | Inr v \<Rightarrow> P v)"
  shows "\<forall>(k, v) \<in> set data. (\<exists>s. k = KStr s \<and> K s) \<and> P v"
proof (clarify)
  fix k v assume "(k, v) \<in> set data"
  from build_data_values [OF assms(1,2) this] obtain s where
    "s \<in> set ks" "k = KStr s" "db_get e s = Inr v"
    by blast
  with assms(3) show "(\<exists>s. k = KStr s \<and> K s) \<and> P v" by fastforce
qed

lemma export_success_data:
  assumes "export_db e w = (None, w')"
  obtains data where "build_data e = Inr data" "encodable (PDict data)"
    "files w' = (files w)(backup_path \<mapsto> json_text (PDict data) 0)"
    "stdout w' = stdout w @ [notice]"
  using assms
proof (cases rule: export_db_cases)
  case (opened data t)
  from json_dump_result(1) [OF opened(3)] opened that show ?thesis by simp
qed simp_all

text \<open>
  C1 (completeness). The mapping built from the keys \<open>ks\<close> the store enumerated has each
  of them as a key exactly once and no other key. When the run succeeds on a store of
  Unicode keys and well-formed values, the file holds the document of that mapping, and
  read back it is an object with the same keys as the mapping, each once: the keys
  \<open>ks\<close>.
\<close>

theorem export_completeness:
  assumes "db_keys e = Inr ks"
  shows "(build_data e = Inr data \<longrightarrow>
            distinct (map fst data) \<and> set (map fst data) = KStr ` set ks)
    \<and> (export_db e w = (None, w') \<longrightarrow>
        (\<forall>k \<in> set ks. unicode_text k \<and> (case db_get e k of Inl m \<Rightarrow> True | Inr v \<Rightarrow> wf_val v)) \<longrightarrow>
        (\<exists>d obj. build_data e = Inr d
           \<and> files w' backup_path = Some (json_text (PDict d) 0)
           \<and> json_loads True (json_text (PDict d) 0) = Some (PDict obj)
           \<and> map fst obj = map fst d
           \<and> distinct (map fst obj) \<and> set (map fst obj) = KStr ` set ks))"
proof (intro conjI impI)
  assume b: "build_data e = Inr data"
  show "distinct (map fst data)" by (rule build_data_keys(2) [OF assms b])
  show "set (map fst data) = KStr ` set ks" by (rule build_data_keys(3) [OF assms b])
next
  assume run: "export_db e w = (None, w')"
    and wf: "\<forall>k \<in> set ks. unicode_text k \<and> (case db_get e k of Inl m \<Rightarrow> True | Inr v \<Rightarrow> wf_val v)"
  from run obtain d where d: "build_data e = Inr d" "encodable (PDict d)"
    "files w' = (files w)(backup_path \<mapsto> json_text (PDict d) 0)"
    by (rule export_success_data)
  have items: "\<forall>(k, v) \<in> set d. (\<exists>s. k = KStr s \<and> unicode_text s) \<and> wf_val v"
    by (rule data_items_wf [OF assms d(1) wf])
  have "\<forall>(k, v) \<in> set d. (\<exists>s. k = KStr s \<and> unicode_text s) \<and> encodable v \<and> wf_val v
      \<and> (\<not> True \<longrightarrow> finite_floats v)"
    using items d(2) by auto
  from loads_data [OF build_data_keys(2) [OF assms d(1)] this]
  have l: "json_loads True (json_text (PDict d) 0) = Some (PDict (map (\<lambda>(k, v). (k, jnorm v)) d))" .
  have keys: "map fst (map (\<lambda>(k, v). (k, jnorm v)) d) = map fst d"
    by (induction d) auto
  show "\<exists>d obj. build_data e = Inr d
           \<and> files w' backup_path = Some (json_text (PDict d) 0)
           \<and> json_loads True (json_text (PDict d) 0) = Some (PDict obj)
           \<and> map fst obj = map fst d
           \<and> distinct (map fst obj) \<and> set (map fst obj) = KStr ` set ks"
    using d(1,3) l keys build_data_keys(2,3) [OF assms d(1)]
    by (intro exI [of _ d] exI [of _ "map (\<lambda>(k, v). (k, jnorm v)) d"]) (simp only: fun_upd_same simp_thms)
qed

theorem export_completeness_witness:
  "\<exists>d obj. build_data scenario_env = Inr d
     \<and> distinct (map fst d) \<and> set (map fst d) = KStr ` set [str_of ''score'', str_of ''name'', str_of ''tags'']
     \<and> files (snd (export_db scenario_env empty_world)) backup_path = Some (json_text (PDict d) 0)
     \<and> json_loads True (json_text (PDict d) 0) = Some (PDict obj)
     \<and> set (map fst obj) = KStr ` set [str_of ''score'', str_of ''name'', str_of ''tags'']"
proof -
  let ?ks = "[str_of ''score'', str_of ''name'', str_of ''tags'']"
  let ?w = "snd (export_db scenario_env empty_world)"
  have k: "db_keys scenario_env = Inr ?ks" by (simp add: scenario_env_def)
  have "fst (export_db scenario_env empty_world) = None" by code_simp
  then have r: "export_db scenario_env empty_world = (None, ?w)"
    by (simp add: prod_eq_iff)
  have wf: "\<forall>k \<in> set ?ks. unicode_text k \<and> (case db_get scenario_env k of Inl m \<Rightarrow> True | Inr v \<Rightarrow> wf_val v)"
    by (simp add: unicode_text_def valid_str_def str_of_def scenario_env_def)
  note th = export_completeness [OF k, of _ empty_world ?w]
  from th [THEN conjunct2, THEN mp, THEN mp, OF r wf] obtain d obj where
    d: "build_data scenario_env = Inr d"
    and f: "files ?w backup_path = Some (json_text (PDict d) 0)"
    and l: "json_loads True (json_text (PDict d) 0) = Some (PDict obj)"
    and o: "set (map fst obj) = KStr ` set ?ks"
    by (elim exE conjE)
  note m = th [THEN conjunct1, THEN mp, OF d]
  from d m [THEN conjunct1] m [THEN conjunct2] f l o show ?thesis
    by (intro exI [of _ d] exI [of _ obj] conjI)
qed

text \<open>
  C2 (fidelity). When every enumerated key is Unicode text and reads as a
  JSON-representable value, and the file can be opened and written, the run succeeds and
  the file, read back as JSON, is an object that holds under every enumerated key the
  very value the store returned for it: serializing and parsing returns the value
  (lemma \<open>json_roundtrip\<close>).
\<close>

theorem export_fidelity:
  assumes "db_keys e = Inr ks"
    and "\<forall>k \<in> set ks. unicode_text k \<and> (case db_get e k of Inl m \<Rightarrow> False | Inr v \<Rightarrow> json_representable v)"
    and "can_open e" and "write_budget e = None"
  shows "\<exists>w' written obj. export_db e w = (None, w')
     \<and> files w' backup_path = Some written
     \<and> json_loads False written = Some (PDict obj)
     \<and> (\<forall>k \<in> set ks. case db_get e k of Inl m \<Rightarrow> False | Inr v \<Rightarrow> map_of obj (KStr k) = Some v)"
proof -
  have reads: "\<forall>k \<in> set ks. \<exists>v. db_get e k = Inr v"
  proof
    fix k assume "k \<in> set ks"
    with assms(2) show "\<exists>v. db_get e k = Inr v" by (cases "db_get e k") auto
  qed
  from build_data_succeeds [OF assms(1) reads] obtain d where d: "build_data e = Inr d"
    by blast
  have "\<forall>k \<in> set ks. unicode_text k \<and> (case db_get e k of Inl m \<Rightarrow> True | Inr v \<Rightarrow> json_representable v)"
    using assms(2) by (auto split: sum.splits)
  from data_items_wf [OF assms(1) d this]
  have items: "\<forall>(k, v) \<in> set d. (\<exists>s. k = KStr s \<and> unicode_text s) \<and> json_representable v" .
  have props: "\<forall>(k, v) \<in> set d. (\<exists>s. k = KStr s \<and> unicode_text s) \<and> encodable v \<and> wf_val v
      \<and> (\<not> False \<longrightarrow> finite_floats v)"
    using items representable_props by fastforce
  have enc: "encodable (PDict d)"
    using props by fastforce
  have id: "map (\<lambda>(k, v). (k, jnorm v)) d = d"
    using items representable_props by (intro map_idI) fastforce
  from loads_data [OF build_data_keys(2) [OF assms(1) d] props]
  have l: "json_loads False (json_text (PDict d) 0) = Some (PDict d)"
    by (simp only: id)
  have look: "\<forall>k \<in> set ks. case db_get e k of Inl m \<Rightarrow> False | Inr v \<Rightarrow> map_of d (KStr k) = Some v"
    using build_data_lookup [OF assms(1) d] by fastforce
  show ?thesis
    using export_db_success [OF d assms(3,4) enc, of w] l look
    by (intro exI [of _ "w\<lparr>files := (files w)(backup_path \<mapsto> json_text (PDict d) 0),
          stdout := stdout w @ [notice]\<rparr>"] exI [of _ "json_text (PDict d) 0"] exI [of _ d]) simp
qed

theorem export_fidelity_witness:
  "\<exists>w' written obj. export_db scenario_env empty_world = (None, w')
     \<and> files w' backup_path = Some written
     \<and> json_loads False written = Some (PDict obj)
     \<and> map_of obj (KStr (str_of ''score'')) = Some (PInt 42)
     \<and> map_of obj (KStr (str_of ''name'')) = Some (PStr (str_of ''alice''))
     \<and> map_of obj (KStr (str_of ''tags'')) = Some (PList [PStr (str_of ''a''), PStr (str_of ''b'')])"
proof -
  let ?ks = "[str_of ''score'', str_of ''name'', str_of ''tags'']"
  have k: "db_keys scenario_env = Inr ?ks" by (simp add: scenario_env_def)
  have rep: "\<forall>k \<in> set ?ks. unicode_text k \<and>
      (case db_get scenario_env k of Inl m \<Rightarrow> False | Inr v \<Rightarrow> json_representable v)"
    by (simp add: unicode_text_def valid_str_def str_of_def scenario_env_def)
  have o: "can_open scenario_env" "write_budget scenario_env = None"
    by (simp_all add: scenario_env_def)
  have g: "db_get scenario_env (str_of ''score'') = Inr (PInt 42)"
    "db_get scenario_env (str_of ''name'') = Inr (PStr (str_of ''alice''))"
    "db_get scenario_env (str_of ''tags'') = Inr (PList [PStr (str_of ''a''), PStr (str_of ''b'')])"
    by (simp_all add: scenario_env_def str_of_def)
  from export_fidelity [OF k rep o, of empty_world] obtain w' written obj where
    "export_db scenario_env empty_world = (None, w')" "files w' backup_path = Some written"
    "json_loads False written = Some (PDict obj)"
    "\<forall>k \<in> set ?ks. case db_get scenario_env k of Inl m \<Rightarrow> False | Inr v \<Rightarrow> map_of obj (KStr k) = Some v"
    by blast
  then show ?thesis using g by (intro exI [of _ w'] exI [of _ written] exI [of _ obj]) simp
qed

section \<open>Failures of the store\<close>

text \<open>
  C3. When \<open>db.keys()\<close> raises, the run ends with that failure, signalled as
  \<open>StoreUnavailable\<close>, and the world is as it was: no file is created or modified and
  nothing is printed.
\<close>

theorem enumeration_failure_propagates:
  "db_keys e = Inl msg \<Longrightarrow> export_db e w = (Some (StoreUnavailable msg), w)"
  by (simp add: export_db_def build_data_def)

theorem enumeration_failure_propagates_witness:
  "export_db unreachable_env empty_world = (Some (StoreUnavailable ''connection refused''), empty_world)"
  using enumeration_failure_propagates [of unreachable_env "''connection refused''" empty_world]
  by (simp add: unreachable_env_def)

section \<open>What a failing run leaves in the file\<close>

text \<open>
  C4, as amended. The file is opened, and so created or emptied, before the first chunk
  is produced, and the chunks are written as the encoder yields them. A run that fails
  in the store or cannot open the file leaves the world as it was. A run that succeeds
  leaves the whole document in the file. A run whose serialization fails leaves in the
  file exactly the chunks the encoder yielded before it failed, whatever the file held
  before; and serialization does fail when the mapping holds a value the encoder does not
  accept and the file can be opened and written. A run that the disk stops leaves the
  characters the disk took.
\<close>

theorem file_holds_yielded_chunks:
  assumes "export_db e w = (r, w')"
  shows "(\<forall>m. r = Some (StoreUnavailable m) \<longrightarrow> w' = w)
    \<and> (\<not> can_open e \<longrightarrow> w' = w)
    \<and> (r = None \<longrightarrow>
         (\<exists>data. build_data e = Inr data \<and> encodable (PDict data)
            \<and> files w' = (files w)(backup_path \<mapsto> json_text (PDict data) 0)))
    \<and> (\<forall>m. r = Some (SerializationError m) \<longrightarrow>
         (\<exists>data. build_data e = Inr data \<and> \<not> encodable (PDict data)
            \<and> files w' = (files w)(backup_path \<mapsto> concat (fst (iterencode (PDict data) 0)))))
    \<and> (r = Some FilesystemError \<and> can_open e \<longrightarrow>
         (\<exists>data n. build_data e = Inr data \<and> write_budget e = Some n
            \<and> n < length (concat (fst (iterencode (PDict data) 0)))
            \<and> files w' = (files w)(backup_path \<mapsto> take n (concat (fst (iterencode (PDict data) 0))))))
    \<and> (\<forall>data. build_data e = Inr data \<and> can_open e \<and> write_budget e = None
           \<and> \<not> encodable (PDict data) \<longrightarrow>
         (\<exists>m. r = Some (SerializationError m)))"
  using assms
proof (cases rule: export_db_cases)
  case (store m)
  then show ?thesis by simp
next
  case (closed data)
  then show ?thesis by simp
next
  case (opened data t)
  note res = json_dump_result [OF opened(3)]
  have ok: "r = None \<longrightarrow> encodable (PDict data) \<and> t = json_text (PDict data) 0"
    using res(1) by simp
  have ser: "\<forall>m. r = Some (SerializationError m) \<longrightarrow>
      \<not> encodable (PDict data) \<and> t = concat (fst (iterencode (PDict data) 0))"
    using res(2) by simp
  have disk: "r = Some FilesystemError \<longrightarrow>
      (\<exists>n. write_budget e = Some n \<and> n < length (concat (fst (iterencode (PDict data) 0)))
        \<and> t = take n (concat (fst (iterencode (PDict data) 0))))"
    using res(3) by simp
  have nostore: "\<forall>m. r \<noteq> Some (StoreUnavailable m)"
    using res(4) by auto
  have must: "write_budget e = None \<and> \<not> encodable (PDict data) \<longrightarrow>
      (\<exists>m. r = Some (SerializationError m))"
  proof (intro impI, elim conjE)
    assume b: "write_budget e = None" and n: "\<not> encodable (PDict data)"
    from json_dump_not_encodable [OF n] opened(3) b show "\<exists>m. r = Some (SerializationError m)"
      by simp
  qed
  show ?thesis
    using opened(1,2,4) ok ser disk nostore must by auto
qed

theorem file_holds_yielded_chunks_witness:
  "\<exists>data. build_data set_env = Inr data \<and> \<not> encodable (PDict data)
     \<and> files (snd (export_db set_env empty_world)) =
         (files empty_world)(backup_path \<mapsto> concat (fst (iterencode (PDict data) 0)))"
proof -
  let ?m = "''Object of type set is not JSON serializable''"
  let ?w = "snd (export_db set_env empty_world)"
  have "fst (export_db set_env empty_world) = Some (SerializationError ?m)" by code_simp
  then have r: "export_db set_env empty_world = (Some (SerializationError ?m), ?w)"
    by (simp add: prod_eq_iff)
  note th = file_holds_yielded_chunks [OF r]
  from th [THEN conjunct2, THEN conjunct2, THEN conjunct2, THEN conjunct1, THEN spec, THEN mp, OF refl]
  show ?thesis .
qed

text \<open>
  C4 as stated fails: on the store \<open>{"a": 1, "s": {1, 2}}\<close> the run ends with the
  \<open>TypeError\<close> of the set, and the file, which did not exist, holds the start of a
  document that is no JSON.
\<close>

theorem partial_write_counterexample:
  \<open>fst (export_db set_env empty_world) = Some (SerializationError ''Object of type set is not JSON serializable'')
   \<and> files empty_world backup_path = None
   \<and> files (snd (export_db set_env empty_world)) backup_path = Some ''{\<newline>    "a": 1,\<newline>    "s": ''
   \<and> json_loads True ''{\<newline>    "a": 1,\<newline>    "s": '' = None\<close>
  by code_simp

section \<open>The empty store\<close>

text \<open>
  C5. When the store enumerates no key, the file can be opened and the disk takes the
  two characters written, the run succeeds, prints its notice, and the file holds
  \<open>{}\<close>, which is the empty JSON object.
\<close>

theorem empty_store_export:
  assumes "db_keys e = Inr []" and "can_open e"
    and "case write_budget e of None \<Rightarrow> True | Some n \<Rightarrow> 2 \<le> n"
  shows "export_db e w =
      (None, w\<lparr>files := (files w)(backup_path \<mapsto> ''{}''), stdout := stdout w @ [notice]\<rparr>)
    \<and> json_loads False ''{}'' = Some (PDict [])"
proof -
  have "json_dump (PDict []) (write_budget e) = (''{}'', None)"
    using assms(3) by (cases "write_budget e") (auto simp: json_dump_def yield_def)
  moreover have "json_loads False ''{}'' = Some (PDict [])" by code_simp
  ultimately show ?thesis
    using assms(1,2) by (simp add: export_db_def build_data_def)
qed

theorem empty_store_export_witness:
  "export_db empty_env empty_world =
      (None, empty_world\<lparr>files := (files empty_world)(backup_path \<mapsto> ''{}''),
                         stdout := stdout empty_world @ [notice]\<rparr>)
    \<and> json_loads False ''{}'' = Some (PDict [])"
proof -
  have "db_keys empty_env = Inr []" "can_open empty_env"
    "case write_budget empty_env of None \<Rightarrow> True | Some n \<Rightarrow> 2 \<le> n"
    by (simp_all add: empty_env_def)
  from empty_store_export [OF this] show ?thesis .
qed

section \<open>The format of the file\<close>

text \<open>
  C6, as amended. After a successful run on a store whose values hold no \<open>nan\<close>, \<open>inf\<close>
  or \<open>-inf\<close>, the file \<open>database_backup.json\<close> holds the document of the mapping in the
  layout with four spaces for each level of nesting, every character of it is ASCII
  (hence the same bytes in UTF-8), and it is JSON by RFC 8259 whose value is an object.
\<close>

theorem successful_export_format:
  assumes "db_keys e = Inr ks" and "export_db e w = (None, w')"
    and "\<forall>k \<in> set ks. valid_str k \<and>
          (case db_get e k of Inl m \<Rightarrow> True | Inr v \<Rightarrow> wf_val v \<and> finite_floats v)"
  shows "\<exists>data obj. build_data e = Inr data
      \<and> files w' = (files w)(backup_path \<mapsto> json_text (PDict data) 0)
      \<and> backup_path = ''database_backup.json''
      \<and> ascii_text (json_text (PDict data) 0)
      \<and> json_loads False (json_text (PDict data) 0) = Some (PDict obj)"
proof -
  from assms(2) obtain d where d: "build_data e = Inr d" "encodable (PDict d)"
    "files w' = (files w)(backup_path \<mapsto> json_text (PDict d) 0)"
    by (rule export_success_data)
  have items: "\<forall>(k, v) \<in> set d. (\<exists>s. k = KStr s \<and> valid_str s) \<and> wf_val v \<and> finite_floats v"
    by (rule data_items_wf [OF assms(1) d(1) assms(3)])
  have wf: "wf_val (PDict d)" and fin: "\<not> False \<longrightarrow> finite_floats (PDict d)"
    using items by fastforce+
  from json_loads_json_text [OF d(2) wf fin]
  have "json_loads False (json_text (PDict d) 0) =
      Some (PDict (dict_of (map (\<lambda>(k, v). (KStr (join_surrogates (key_text k)), jnorm v)) d)))"
    by simp
  moreover have "ascii_text (json_text (PDict d) 0)"
    by (rule ascii_json_text(1) [OF d(2) wf])
  ultimately show ?thesis
    using d(1,3) by (intro exI [of _ d] exI conjI) (simp_all add: backup_path_def)
qed

theorem successful_export_format_witness:
  "\<exists>data obj. build_data scenario_env = Inr data
      \<and> files (snd (export_db scenario_env empty_world)) backup_path = Some (json_text (PDict data) 0)
      \<and> ascii_text (json_text (PDict data) 0)
      \<and> json_loads False (json_text (PDict data) 0) = Some (PDict obj)"
proof -
  let ?ks = "[str_of ''score'', str_of ''name'', str_of ''tags'']"
  let ?w = "snd (export_db scenario_env empty_world)"
  have k: "db_keys scenario_env = Inr ?ks" by (simp add: scenario_env_def)
  have "fst (export_db scenario_env empty_world) = None" by code_simp
  then have r: "export_db scenario_env empty_world = (None, ?w)"
    by (simp add: prod_eq_iff)
  have wf: "\<forall>k \<in> set ?ks. valid_str k \<and>
      (case db_get scenario_env k of Inl m \<Rightarrow> True | Inr v \<Rightarrow> wf_val v \<and> finite_floats v)"
    by (simp add: valid_str_def str_of_def scenario_env_def)
  from successful_export_format [OF k r wf] obtain data obj where
    "build_data scenario_env = Inr data"
    "files ?w = (files empty_world)(backup_path \<mapsto> json_text (PDict data) 0)"
    "ascii_text (json_text (PDict data) 0)"
    "json_loads False (json_text (PDict data) 0) = Some (PDict obj)"
    by (elim exE conjE)
  then show ?thesis
    by (intro exI [of _ data] exI [of _ obj]) simp
qed

text \<open>
  C6 as stated fails: on the store \<open>{"x": nan}\<close> the run succeeds and the file holds the
  token \<open>NaN\<close>, which is no JSON.
\<close>

theorem nan_file_not_json:
  \<open>fst (export_db nan_env empty_world) = None
   \<and> files (snd (export_db nan_env empty_world)) backup_path = Some ''{\<newline>    "x": NaN\<newline>}''
   \<and> json_loads False ''{\<newline>    "x": NaN\<newline>}'' = None\<close>
  by code_simp

section \<open>Running twice\<close>

text \<open>
  C7. A second run against the unchanged store, started in the world the first run
  left, ends as the first did and leaves every file with the content the first run left.
  When the runs succeed, that content is the document of the mapping built from the
  store: the file holds it after the first run and after the second, which replaced the
  file and did not append to it, and any run against this store holds it, whatever the
  world it starts in; each run has printed its notice.
\<close>

theorem export_twice_same_file:
  assumes "export_db e w = (r1, w1)" and "export_db e w1 = (r2, w2)"
  shows "r2 = r1 \<and> files w2 = files w1
    \<and> (\<forall>w0. fst (export_db e w0) = r1)
    \<and> (r1 = None \<longrightarrow>
         (\<exists>data. build_data e = Inr data \<and> encodable (PDict data)
            \<and> files w1 backup_path = Some (json_text (PDict data) 0)
            \<and> files w2 backup_path = Some (json_text (PDict data) 0)
            \<and> (\<forall>w0. files (snd (export_db e w0)) backup_path = Some (json_text (PDict data) 0))
            \<and> stdout w2 = stdout w @ [notice, notice]))"
proof (intro conjI impI allI)
  show "r2 = r1" and "files w2 = files w1"
    using assms by (auto simp: export_db_def split: sum.splits option.splits prod.splits if_splits)
  show "fst (export_db e w0) = r1" for w0
    using assms(1) by (auto simp: export_db_def split: sum.splits option.splits prod.splits if_splits)
  assume ok: "r1 = None"
  then have r2: "r2 = None"
    using assms by (auto simp: export_db_def split: sum.splits option.splits prod.splits if_splits)
  from assms(1) ok obtain d where d: "build_data e = Inr d" "encodable (PDict d)"
    "files w1 = (files w)(backup_path \<mapsto> json_text (PDict d) 0)"
    "stdout w1 = stdout w @ [notice]"
    by (auto elim: export_success_data)
  from assms(2) r2 obtain d' where d': "build_data e = Inr d'"
    "files w2 = (files w1)(backup_path \<mapsto> json_text (PDict d') 0)"
    "stdout w2 = stdout w1 @ [notice]"
    by (auto elim: export_success_data)
  have same: "d' = d" using d(1) d'(1) by simp
  have any: "files (snd (export_db e w0)) backup_path = Some (json_text (PDict d) 0)" for w0
  proof -
    have "fst (export_db e w0) = None"
      using assms(1) ok
      by (auto simp: export_db_def split: sum.splits option.splits prod.splits if_splits)
    then have "export_db e w0 = (None, snd (export_db e w0))"
      by (simp add: prod_eq_iff)
    then obtain d0 where "build_data e = Inr d0"
      "files (snd (export_db e w0)) = (files w0)(backup_path \<mapsto> json_text (PDict d0) 0)"
      by (auto elim: export_success_data)
    with d(1) show ?thesis by simp
  qed
  show "\<exists>data. build_data e = Inr data \<and> encodable (PDict data)
            \<and> files w1 backup_path = Some (json_text (PDict data) 0)
            \<and> files w2 backup_path = Some (json_text (PDict data) 0)
            \<and> (\<forall>w0. files (snd (export_db e w0)) backup_path = Some (json_text (PDict data) 0))
            \<and> stdout w2 = stdout w @ [notice, notice]"
    using d d' same any by (intro exI [of _ d]) simp
qed

theorem export_twice_same_file_witness:
  "\<exists>data. build_data scenario_env = Inr data
     \<and> fst (export_db scenario_env (snd (export_db scenario_env empty_world))) = None
     \<and> files (snd (export_db scenario_env empty_world)) backup_path = Some (json_text (PDict data) 0)
     \<and> files (snd (export_db scenario_env (snd (export_db scenario_env empty_world)))) backup_path
         = Some (json_text (PDict data) 0)
     \<and> stdout (snd (export_db scenario_env (snd (export_db scenario_env empty_world))))
         = [notice, notice]"
proof -
  let ?w1 = "snd (export_db scenario_env empty_world)"
  let ?w2 = "snd (export_db scenario_env ?w1)"
  have "fst (export_db scenario_env empty_world) = None" by code_simp
  then have r1: "export_db scenario_env empty_world = (None, ?w1)"
    by (simp add: prod_eq_iff)
  have r2: "export_db scenario_env ?w1 = (fst (export_db scenario_env ?w1), ?w2)"
    by simp
  note th = export_twice_same_file [OF r1 r2]
  from th [THEN conjunct2, THEN conjunct2, THEN conjunct2, THEN mp, OF refl] obtain data where
    "build_data scenario_env = Inr data"
    "files ?w1 backup_path = Some (json_text (PDict data) 0)"
    "files ?w2 backup_path = Some (json_text (PDict data) 0)"
    "stdout ?w2 = stdout empty_world @ [notice, notice]"
    by (elim exE conjE)
  with th [THEN conjunct1] show ?thesis
    by (intro exI [of _ data]) (simp add: empty_world_def)
qed

section \<open>Values the encoder does not accept\<close>

text \<open>
  C8, as amended. When a value read for an enumerated key holds an object the encoder
  has no form for (any object but \<open>None\<close>, booleans, ints, floats, strings, lists,
  tuples and dictionaries, or a dictionary key that is none of \<open>str\<close>, int, float,
  boolean, \<open>None\<close>), the run fails and prints no notice; when moreover every read
  succeeds and the file can be opened and written, the failure is the encoder's
  \<open>SerializationError\<close>.
\<close>

theorem unencodable_value_fails:
  assumes "db_keys e = Inr ks" and "k \<in> set ks" and "db_get e k = Inr v" and "\<not> encodable v"
  shows "fst (export_db e w) \<noteq> None
    \<and> stdout (snd (export_db e w)) = stdout w
    \<and> ((\<forall>k' \<in> set ks. \<exists>v'. db_get e k' = Inr v') \<and> can_open e \<and> write_budget e = None \<longrightarrow>
         (\<exists>m. fst (export_db e w) = Some (SerializationError m)))"
proof -
  obtain r w' where run: "export_db e w = (r, w')" by (cases "export_db e w")
  have bad: "\<not> encodable (PDict data)" if "build_data e = Inr data" for data
  proof -
    from build_data_lookup [OF assms(1) that assms(2)] assms(3)
    have "map_of data (KStr k) = Some v" by simp
    then have "(KStr k, v) \<in> set data" by (rule map_of_SomeD)
    with assms(4) show ?thesis by auto
  qed
  from run have "r \<noteq> None \<and> stdout w' = stdout w"
  proof (cases rule: export_db_cases)
    case (opened data t)
    from json_dump_fails [OF bad [OF opened(1)], of "write_budget e"] opened(3,5)
    show ?thesis by simp
  qed simp_all
  moreover have "\<exists>m. r = Some (SerializationError m)"
    if "\<forall>k' \<in> set ks. \<exists>v'. db_get e k' = Inr v'" "can_open e" "write_budget e = None"
  proof -
    from build_data_succeeds [OF assms(1) that(1)] obtain data where d: "build_data e = Inr data"
      by blast
    from json_dump_not_encodable [OF bad [OF d]] obtain m where
      "snd (json_dump (PDict data) None) = Some (SerializationError m)" by blast
    with run d that(2,3) show ?thesis
      by (cases "json_dump (PDict data) None") (auto simp: export_db_def)
  qed
  ultimately show ?thesis using run by auto
qed

theorem unencodable_value_fails_witness:
  "fst (export_db set_env empty_world) \<noteq> None
    \<and> stdout (snd (export_db set_env empty_world)) = stdout empty_world
    \<and> (\<exists>m. fst (export_db set_env empty_world) = Some (SerializationError m))"
proof -
  have h: "db_keys set_env = Inr [str_of ''a'', str_of ''s'']" "str_of ''s'' \<in> set [str_of ''a'', str_of ''s'']"
    "db_get set_env (str_of ''s'') = Inr (PObject ''set'')" "\<not> encodable (PObject ''set'')"
    by (simp_all add: set_env_def str_of_def)
  have g: "(\<forall>k' \<in> set [str_of ''a'', str_of ''s'']. \<exists>v'. db_get set_env k' = Inr v')
      \<and> can_open set_env \<and> write_budget set_env = None"
    by (simp add: set_env_def str_of_def)
  from unencodable_value_fails [OF h, of empty_world] g show ?thesis
    by blast
qed

text \<open>
  C8 as stated fails: \<open>nan\<close> is not representable in JSON, and on the store
  \<open>{"x": nan}\<close> the run succeeds and prints its notice.
\<close>

theorem nan_value_exported:
  "db_keys nan_env = Inr [str_of ''x'']
   \<and> db_get nan_env (str_of ''x'') = Inr (PFloat NaN)
   \<and> \<not> json_representable (PFloat NaN)
   \<and> fst (export_db nan_env empty_world) = None
   \<and> stdout (snd (export_db nan_env empty_world)) = [notice]"
  by code_simp

section \<open>The order of the keys\<close>

text \<open>
  C9 (order). The keys of the mapping are the enumerated keys in the order of their
  first occurrence, which for an enumeration without repetition is the enumeration
  itself; when the run succeeds on a store of Unicode keys and well-formed values, the
  object read back from the file has its keys in that order.
\<close>

theorem export_order:
  assumes "db_keys e = Inr ks"
  shows "(build_data e = Inr data \<longrightarrow>
            map fst data = map KStr (rev (remdups (rev ks)))
            \<and> (distinct ks \<longrightarrow> map fst data = map KStr ks))
    \<and> (export_db e w = (None, w') \<longrightarrow>
        (\<forall>k \<in> set ks. unicode_text k \<and> (case db_get e k of Inl m \<Rightarrow> True | Inr v \<Rightarrow> wf_val v)) \<longrightarrow>
        (\<exists>written obj. files w' backup_path = Some written
           \<and> json_loads True written = Some (PDict obj)
           \<and> map fst obj = map KStr (rev (remdups (rev ks)))))"
proof (intro conjI impI)
  assume b: "build_data e = Inr data"
  show "map fst data = map KStr (rev (remdups (rev ks)))"
    by (rule build_data_keys(1) [OF assms b])
  then show "map fst data = map KStr ks" if "distinct ks"
    using that by (simp add: first_occ_distinct)
next
  assume run: "export_db e w = (None, w')"
    and wf: "\<forall>k \<in> set ks. unicode_text k \<and> (case db_get e k of Inl m \<Rightarrow> True | Inr v \<Rightarrow> wf_val v)"
  from run obtain d where d: "build_data e = Inr d" "encodable (PDict d)"
    "files w' = (files w)(backup_path \<mapsto> json_text (PDict d) 0)"
    by (rule export_success_data)
  have items: "\<forall>(k, v) \<in> set d. (\<exists>s. k = KStr s \<and> unicode_text s) \<and> wf_val v"
    by (rule data_items_wf [OF assms d(1) wf])
  have "\<forall>(k, v) \<in> set d. (\<exists>s. k = KStr s \<and> unicode_text s) \<and> encodable v \<and> wf_val v
      \<and> (\<not> True \<longrightarrow> finite_floats v)"
    using items d(2) by auto
  from loads_data [OF build_data_keys(2) [OF assms d(1)] this]
  have l: "json_loads True (json_text (PDict d) 0) = Some (PDict (map (\<lambda>(k, v). (k, jnorm v)) d))" .
  have keys: "map fst (map (\<lambda>(k, v). (k, jnorm v)) d) = map fst d"
    by (induction d) auto
  show "\<exists>written obj. files w' backup_path = Some written
           \<and> json_loads True written = Some (PDict obj)
           \<and> map fst obj = map KStr (rev (remdups (rev ks)))"
    using d(3) l keys build_data_keys(1) [OF assms d(1)]
    by (intro exI [of _ "json_text (PDict d) 0"] exI [of _ "map (\<lambda>(k, v). (k, jnorm v)) d"])
      (simp only: fun_upd_same simp_thms)
qed

theorem export_order_witness:
  "\<exists>written obj. files (snd (export_db scenario_env empty_world)) backup_path = Some written
     \<and> json_loads True written = Some (PDict obj)
     \<and> map fst obj = map KStr [str_of ''score'', str_of ''name'', str_of ''tags'']"
proof -
  let ?ks = "[str_of ''score'', str_of ''name'', str_of ''tags'']"
  let ?w = "snd (export_db scenario_env empty_world)"
  have k: "db_keys scenario_env = Inr ?ks" by (simp add: scenario_env_def)
  have "fst (export_db scenario_env empty_world) = None" by code_simp
  then have r: "export_db scenario_env empty_world = (None, ?w)"
    by (simp add: prod_eq_iff)
  have wf: "\<forall>k \<in> set ?ks. unicode_text k \<and> (case db_get scenario_env k of Inl m \<Rightarrow> True | Inr v \<Rightarrow> wf_val v)"
    by (simp add: unicode_text_def valid_str_def str_of_def scenario_env_def)
  have f: "rev (remdups (rev ?ks)) = ?ks" by (simp add: str_of_def)
  note th = export_order [OF k, of _ empty_world ?w]
  from th [THEN conjunct2, THEN mp, THEN mp, OF r wf] show ?thesis
    by (simp only: f)
qed

section \<open>Failures of a read\<close>

text \<open>
  C10. When reading the value of an enumerated key fails, the run ends with a
  \<open>StoreUnavailable\<close> failure and the world is as it was: the destination file is neither
  created nor modified, since the file is opened only after the last read.
\<close>

theorem read_failure_leaves_world:
  assumes "db_keys e = Inr ks" and "k \<in> set ks" and "db_get e k = Inl msg"
  shows "\<exists>m. export_db e w = (Some (StoreUnavailable m), w)"
proof -
  from accumulate_fails [of k ks "db_get e" msg "[]", OF assms(2,3)] obtain m where
    "accumulate (db_get e) ks [] = Inl (StoreUnavailable m)" by blast
  with assms(1) show ?thesis
    by (simp add: export_db_def build_data_def)
qed

theorem read_failure_leaves_world_witness:
  "\<exists>m. export_db unreadable_env empty_world = (Some (StoreUnavailable m), empty_world)"
  using read_failure_leaves_world
    [of unreadable_env "[str_of ''a'', str_of ''b'']" "str_of ''b''" "''read failed''" empty_world]
  by (simp add: unreadable_env_def str_of_def)

end
